theory Spec2Isabelle
  imports Main "HOL-Library.Char_ord" "HOL-Library.List_Lexorder" "HOL-Library.Sublist" "HOL-Library.AList"
begin

section \<open>Strings\<close>

text \<open>
  Python strings are modelled as \<open>string\<close>. The source uses \<open>str.strip\<close>, \<open>str.lower\<close> and
  \<open>str.upper\<close>; they are modelled on the ASCII range (the characters a byte string can hold).
\<close>

definition is_space :: "char \<Rightarrow> bool" where
  "is_space c = (let n = (of_char c :: nat) in (9 \<le> n \<and> n \<le> 13) \<or> (28 \<le> n \<and> n \<le> 32))"

definition strip :: "string \<Rightarrow> string" where
  "strip s = rev (dropWhile is_space (rev (dropWhile is_space s)))"

definition lower_char :: "char \<Rightarrow> char" where
  "lower_char c = (let n = (of_char c :: nat) in if 65 \<le> n \<and> n \<le> 90 then char_of (n + 32) else c)"

definition upper_char :: "char \<Rightarrow> char" where
  "upper_char c = (let n = (of_char c :: nat) in if 97 \<le> n \<and> n \<le> 122 then char_of (n - 32) else c)"

definition lower :: "string \<Rightarrow> string" where
  "lower s = map lower_char s"

definition upper :: "string \<Rightarrow> string" where
  "upper s = map upper_char s"

section \<open>Batch grouping: object model (models.py)\<close>

datatype ObjectType =
    SCHEMA | TABLE | VIEW | STORED_PROCEDURE | FUNCTION | STATISTICS
  | EXTERNAL_TABLE | EXTERNAL_DATA_SOURCE | EXTERNAL_FILE_FORMAT | SECURITY

record DatabaseObject =
  name :: string
  object_type :: ObjectType
  schema_name :: string
  status :: string
  failure_reason :: string
  dependencies :: "string list"
  failure_category :: string
  impact_score :: int

definition qualified_name :: "DatabaseObject \<Rightarrow> string" where
  "qualified_name obj = schema_name obj @ ''.'' @ name obj"

section \<open>Batch grouping: the dependency graph (dependency_graph.py)\<close>

text \<open>
  \<open>depends_on\<close> and \<open>depended_by\<close> are \<open>defaultdict(set)\<close>: a total function into sets, empty
  where nothing was stored. An edge from A to B (B in \<open>depends_on A\<close>) reads "A depends on B".
\<close>

record DependencyGraph =
  depends_on :: "string \<Rightarrow> string set"
  depended_by :: "string \<Rightarrow> string set"
  nodes :: "string set"
  object_map :: "string \<rightharpoonup> DatabaseObject"

definition empty_graph :: DependencyGraph where
  "empty_graph = \<lparr> depends_on = (\<lambda>_. {}), depended_by = (\<lambda>_. {}), nodes = {}, object_map = Map.empty \<rparr>"

text \<open>The inner loop of \<open>build\<close>: the declared dependencies of one object.\<close>

fun build_deps :: "string \<Rightarrow> string list \<Rightarrow> DependencyGraph \<Rightarrow> DependencyGraph" where
  "build_deps qname [] g = g"
| "build_deps qname (dep # deps) g =
     (let dep_clean = strip dep in
      if dep_clean = [] then build_deps qname deps g
      else build_deps qname deps
             (g\<lparr> nodes := insert dep_clean (nodes g),
                 depends_on := (depends_on g)(qname := insert dep_clean (depends_on g qname)),
                 depended_by := (depended_by g)(dep_clean := insert qname (depended_by g dep_clean)) \<rparr>))"

primrec build :: "DatabaseObject list \<Rightarrow> DependencyGraph \<Rightarrow> DependencyGraph" where
  "build [] g = g"
| "build (obj # objs) g =
     build objs (build_deps (qualified_name obj) (dependencies obj)
                   (g\<lparr> nodes := insert (qualified_name obj) (nodes g) \<rparr>))"

definition add_edge :: "string \<Rightarrow> string \<Rightarrow> DependencyGraph \<Rightarrow> DependencyGraph" where
  "add_edge from_node to_node g =
     (if from_node = to_node then g
      else g\<lparr> nodes := insert to_node (insert from_node (nodes g)),
               depends_on := (depends_on g)(from_node := insert to_node (depends_on g from_node)),
               depended_by := (depended_by g)(to_node := insert from_node (depended_by g to_node)) \<rparr>)"

text \<open>
  The loop \<open>for schema_qname in schemas\<close> with the test on the schema object's name, shared by
  tables, views, stored procedures and functions.
\<close>

fun add_schema_edges :: "DatabaseObject \<Rightarrow> string list \<Rightarrow> DependencyGraph \<Rightarrow> DependencyGraph" where
  "add_schema_edges obj [] g = g"
| "add_schema_edges obj (schema_qname # rest) g =
     add_schema_edges obj rest
       (case object_map g schema_qname of
          None \<Rightarrow> g
        | Some schema_obj \<Rightarrow>
            if name schema_obj = schema_name obj then add_edge (qualified_name obj) schema_qname g
            else g)"

text \<open>The loop of a security object: an edge to every schema, whatever its name.\<close>

fun add_all_schema_edges :: "string \<Rightarrow> string list \<Rightarrow> DependencyGraph \<Rightarrow> DependencyGraph" where
  "add_all_schema_edges qname [] g = g"
| "add_all_schema_edges qname (schema_qname # rest) g =
     add_all_schema_edges qname rest (add_edge qname schema_qname g)"

text \<open>The loops of an external table over all objects of one type.\<close>

fun add_type_edges :: "string \<Rightarrow> ObjectType \<Rightarrow> DatabaseObject list \<Rightarrow> DependencyGraph \<Rightarrow> DependencyGraph" where
  "add_type_edges qname ty [] g = g"
| "add_type_edges qname ty (other_obj # rest) g =
     add_type_edges qname ty rest
       (if object_type other_obj = ty then add_edge qname (qualified_name other_obj) g else g)"

definition implicit_edges_of :: "DatabaseObject list \<Rightarrow> string list \<Rightarrow> DatabaseObject \<Rightarrow> DependencyGraph \<Rightarrow> DependencyGraph" where
  "implicit_edges_of objects schemas obj g =
     (let g1 = (if object_type obj = TABLE then add_schema_edges obj schemas g else g);
          g2 = (if object_type obj = VIEW then add_schema_edges obj schemas g1 else g1);
          g3 = (if object_type obj = STORED_PROCEDURE then add_schema_edges obj schemas g2 else g2);
          g4 = (if object_type obj = EXTERNAL_TABLE
                then add_type_edges (qualified_name obj) EXTERNAL_FILE_FORMAT objects
                       (add_type_edges (qualified_name obj) EXTERNAL_DATA_SOURCE objects g3)
                else g3);
          g5 = (if object_type obj = SECURITY then add_all_schema_edges (qualified_name obj) schemas g4 else g4)
      in if object_type obj = FUNCTION then add_schema_edges obj schemas g5 else g5)"

fun implicit_loop :: "DatabaseObject list \<Rightarrow> string list \<Rightarrow> DatabaseObject list \<Rightarrow> DependencyGraph \<Rightarrow> DependencyGraph" where
  "implicit_loop objects schemas [] g = g"
| "implicit_loop objects schemas (obj # rest) g =
     implicit_loop objects schemas rest (implicit_edges_of objects schemas obj g)"

definition add_implicit_edges :: "DatabaseObject list \<Rightarrow> DependencyGraph \<Rightarrow> DependencyGraph" where
  "add_implicit_edges objects g =
     implicit_loop objects
       (map qualified_name (filter (\<lambda>obj. object_type obj = SCHEMA) objects)) objects g"

fun fill_object_map :: "DatabaseObject list \<Rightarrow> (string \<rightharpoonup> DatabaseObject) \<Rightarrow> (string \<rightharpoonup> DatabaseObject)" where
  "fill_object_map [] m = m"
| "fill_object_map (obj # objs) m = fill_object_map objs (m(qualified_name obj \<mapsto> obj))"

text \<open>The constructor \<open>DependencyGraph(objects)\<close>.\<close>

definition new_graph :: "DatabaseObject list \<Rightarrow> DependencyGraph" where
  "new_graph objects =
     add_implicit_edges objects
       (build objects (empty_graph\<lparr> object_map := fill_object_map objects Map.empty \<rparr>))"

section \<open>Assessment processor: object model and graph (parser.py, dependency_analyzer.py)\<close>

record AssessmentObject =
  ao_name :: string
  ao_object_type :: string
  ao_schema_name :: string
  ao_status :: string
  ao_failure_reason :: string
  ao_dependencies :: "string list"
  ao_impact_score :: int
  ao_failure_category :: string

definition ao_qualified_name :: "AssessmentObject \<Rightarrow> string" where
  "ao_qualified_name obj = ao_schema_name obj @ ''.'' @ ao_name obj"

definition is_failed :: "AssessmentObject \<Rightarrow> bool" where
  "is_failed obj = (upper (ao_status obj) = ''FAILED'')"

text \<open>
  The \<open>networkx.DiGraph\<close> of the analyzer: its node keys and its edges, both in insertion
  order (networkx keeps dictionaries), each edge with its \<open>edge_type\<close> attribute.
\<close>

datatype edge_type = explicit | implicit

record DiGraph =
  di_nodes :: "string list"
  di_edges :: "(string \<times> string \<times> edge_type) list"

definition di_empty :: DiGraph where
  "di_empty = \<lparr> di_nodes = [], di_edges = [] \<rparr>"

definition add_node :: "string \<Rightarrow> DiGraph \<Rightarrow> DiGraph" where
  "add_node key g = (if key \<in> set (di_nodes g) then g else g\<lparr> di_nodes := di_nodes g @ [key] \<rparr>)"

definition has_edge :: "DiGraph \<Rightarrow> string \<Rightarrow> string \<Rightarrow> bool" where
  "has_edge g u v = (\<exists>e \<in> set (di_edges g). fst e = u \<and> fst (snd e) = v)"

text \<open>
  \<open>DiGraph.add_edge(u, v, edge_type=t)\<close>: both endpoints become nodes when they are not yet;
  an edge that exists keeps its place and takes the new attribute.
\<close>

definition di_add_edge :: "string \<Rightarrow> string \<Rightarrow> edge_type \<Rightarrow> DiGraph \<Rightarrow> DiGraph" where
  "di_add_edge u v t g =
     (let g' = add_node v (add_node u g) in
      if has_edge g' u v
      then g'\<lparr> di_edges := map (\<lambda>e. if fst e = u \<and> fst (snd e) = v then (u, v, t) else e) (di_edges g') \<rparr>
      else g'\<lparr> di_edges := di_edges g' @ [(u, v, t)] \<rparr>)"

definition successors :: "DiGraph \<Rightarrow> string \<Rightarrow> string list" where
  "successors g u = map (\<lambda>e. fst (snd e)) (filter (\<lambda>e. fst e = u) (di_edges g))"

definition predecessors :: "DiGraph \<Rightarrow> string \<Rightarrow> string list" where
  "predecessors g v = map fst (filter (\<lambda>e. fst (snd e) = v) (di_edges g))"

fun add_nodes :: "AssessmentObject list \<Rightarrow> DiGraph \<Rightarrow> DiGraph" where
  "add_nodes [] g = g"
| "add_nodes (obj # objs) g = add_nodes objs (add_node (lower (ao_qualified_name obj)) g)"

text \<open>The explicit edges of one object; \<open>all_keys\<close> is the node set taken before the loop.\<close>

fun explicit_deps :: "string set \<Rightarrow> AssessmentObject \<Rightarrow> string list \<Rightarrow> DiGraph \<Rightarrow> DiGraph" where
  "explicit_deps all_keys obj [] g = g"
| "explicit_deps all_keys obj (dep # deps) g =
     (let dep_lower0 = lower (strip dep);
          dep_lower = (if CHR ''.'' \<notin> set dep_lower0
                       then lower (ao_schema_name obj) @ ''.'' @ dep_lower0 else dep_lower0)
      in explicit_deps all_keys obj deps
           (if dep_lower \<in> all_keys
            then di_add_edge (lower (ao_qualified_name obj)) dep_lower explicit g
            else g))"

fun explicit_loop :: "string set \<Rightarrow> AssessmentObject list \<Rightarrow> DiGraph \<Rightarrow> DiGraph" where
  "explicit_loop all_keys [] g = g"
| "explicit_loop all_keys (obj # objs) g =
     explicit_loop all_keys objs (explicit_deps all_keys obj (ao_dependencies obj) g)"

text \<open>\<open>table_key.split(".", 1)[1] if "." in table_key else table_key\<close>\<close>

definition table_name_of :: "string \<Rightarrow> string" where
  "table_name_of table_key =
     (if CHR ''.'' \<in> set table_key then tl (dropWhile (\<lambda>c. c \<noteq> CHR ''.'') table_key) else table_key)"

fun implicit_add_all :: "string \<Rightarrow> string list \<Rightarrow> DiGraph \<Rightarrow> DiGraph" where
  "implicit_add_all obj_key [] g = g"
| "implicit_add_all obj_key (k # ks) g =
     implicit_add_all obj_key ks (if \<not> has_edge g obj_key k then di_add_edge obj_key k implicit g else g)"

definition implicit_deps_of :: "AssessmentObject list \<Rightarrow> AssessmentObject \<Rightarrow> DiGraph \<Rightarrow> DiGraph" where
  "implicit_deps_of objects obj g =
     (let obj_key = lower (ao_qualified_name obj);
          tables = map (\<lambda>t. lower (ao_qualified_name t))
                     (filter (\<lambda>t. ao_object_type t = ''TABLE''
                                  \<and> lower (ao_schema_name t) = lower (ao_schema_name obj)) objects);
          ext_sources = map (\<lambda>t. lower (ao_qualified_name t))
                     (filter (\<lambda>t. ao_object_type t = ''EXTERNAL_DATA_SOURCE'') objects);
          g1 = (if ao_object_type obj = ''STATISTICS''
                then implicit_add_all obj_key
                       (filter (\<lambda>table_key. sublist (table_name_of table_key) (lower (ao_name obj))) tables) g
                else g)
      in if ao_object_type obj = ''EXTERNAL_TABLE'' then implicit_add_all obj_key ext_sources g1 else g1)"

fun add_implicit_dependencies :: "AssessmentObject list \<Rightarrow> AssessmentObject list \<Rightarrow> DiGraph \<Rightarrow> DiGraph" where
  "add_implicit_dependencies objects [] g = g"
| "add_implicit_dependencies objects (obj # rest) g =
     add_implicit_dependencies objects rest (implicit_deps_of objects obj g)"

definition build_graph :: "AssessmentObject list \<Rightarrow> DiGraph" where
  "build_graph objects =
     (let g = add_nodes objects di_empty
      in add_implicit_dependencies objects objects
           (explicit_loop (set (di_nodes g)) objects g))"

section \<open>Errors\<close>

text \<open>
  Exceptions are values. \<open>KeyError\<close> is what a lookup of a missing key in a \<open>dict\<close> raises;
  \<open>ValueError\<close> is raised by \<open>topological_sort\<close> (carrying the first unresolved nodes of its
  message); \<open>NetworkXError\<close> is what \<open>DiGraph.predecessors\<close> raises for a node that is not in
  the graph.
\<close>

datatype error = KeyError string | ValueError "string list" | NetworkXError string

section \<open>Batch grouping: topological sort and layers (dependency_graph.py)\<close>

text \<open>
  \<open>in_degree\<close> is a \<open>dict\<close> from node to \<open>int\<close>, here an association list with one entry for
  each node. Both algorithms share the loop body
  \<^verbatim>\<open>
  for dependent in sorted(self._depended_by.get(node, set())):
      in_degree[dependent] -= 1
      if in_degree[dependent] == 0:
          queue.append(dependent)
  \<close>
  which is \<open>relax\<close> on the sorted dependents.
\<close>

definition init_in_degree :: "DependencyGraph \<Rightarrow> (string \<times> int) list" where
  "init_in_degree g =
     map (\<lambda>node. (node, int (card (depends_on g node)))) (sorted_list_of_set (nodes g))"

fun relax :: "string list \<Rightarrow> (string \<times> int) list \<Rightarrow> string list
                \<Rightarrow> error + ((string \<times> int) list \<times> string list)" where
  "relax [] in_degree queue = Inr (in_degree, queue)"
| "relax (dependent # rest) in_degree queue =
     (case map_of in_degree dependent of
        None \<Rightarrow> Inl (KeyError dependent)
      | Some v \<Rightarrow>
          relax rest (AList.update dependent (v - 1) in_degree)
            (if v - 1 = 0 then queue @ [dependent] else queue))"

definition in_degree_sum :: "(string \<times> int) list \<Rightarrow> nat" where
  "in_degree_sum in_degree = sum_list (map (\<lambda>kv. nat (snd kv)) in_degree)"

lemma in_degree_sum_update:
  "map_of al k = Some v \<Longrightarrow>
   in_degree_sum (AList.update k v' al) + nat v = in_degree_sum al + nat v'"
  by (induction al) (auto simp: in_degree_sum_def)

lemma relax_measure:
  "relax ds al q = Inr (al', q') \<Longrightarrow>
   length q' + 2 * in_degree_sum al' \<le> length q + 2 * in_degree_sum al"
proof (induction ds arbitrary: al q)
  case Nil
  then show ?case by simp
next
  case (Cons d ds)
  from Cons.prems obtain v where v: "map_of al d = Some v"
    by (auto split: option.splits)
  let ?al = "AList.update d (v - 1) al"
  let ?q = "if v - 1 = 0 then q @ [d] else q"
  from Cons.prems v have "relax ds ?al ?q = Inr (al', q')" by simp
  from Cons.IH[OF this]
  have le: "length q' + 2 * in_degree_sum al' \<le> length ?q + 2 * in_degree_sum ?al" .
  from in_degree_sum_update[OF v, of "v - 1"]
  have eq: "in_degree_sum ?al + nat v = in_degree_sum al + nat (v - 1)" .
  show ?case
  proof (cases "v - 1 = 0")
    case True
    then have "v = 1" by simp
    with eq have "in_degree_sum ?al + 1 = in_degree_sum al" by simp
    with le True show ?thesis by simp
  next
    case False
    from eq have "in_degree_sum ?al \<le> in_degree_sum al" by linarith
    with le False show ?thesis by simp
  qed
qed

function kahn_loop :: "DependencyGraph \<Rightarrow> (string \<times> int) list \<Rightarrow> string list \<Rightarrow> string list
                         \<Rightarrow> error + string list" where
  "kahn_loop g in_degree [] result = Inr result"
| "kahn_loop g in_degree (node # queue) result =
     (case relax (sorted_list_of_set (depended_by g node)) in_degree queue of
        Inl e \<Rightarrow> Inl e
      | Inr (in_degree', queue') \<Rightarrow> kahn_loop g in_degree' queue' (result @ [node]))"
  by pat_completeness auto
termination
proof (relation "measure (\<lambda>(g, al, q, r). length q + 2 * in_degree_sum al)")
  show "wf (measure (\<lambda>(g, al, q, r). length q + 2 * in_degree_sum al))" by simp
next
  fix g :: DependencyGraph and in_degree node queue result x2 x y
  assume "relax (sorted_list_of_set (depended_by g node)) in_degree queue = Inr x2"
     and "(x, y) = x2"
  then have "relax (sorted_list_of_set (depended_by g node)) in_degree queue = Inr (x, y)"
    by simp
  from relax_measure[OF this]
  show "((g, x, y, result @ [node]), (g, in_degree, node # queue, result))
          \<in> measure (\<lambda>(g, al, q, r). length q + 2 * in_degree_sum al)"
    by simp
qed

definition topological_sort :: "DependencyGraph \<Rightarrow> error + string list" where
  "topological_sort g =
     (let in_degree = init_in_degree g;
          queue = filter (\<lambda>node. map_of in_degree node = Some 0) (sorted_list_of_set (nodes g))
      in case kahn_loop g in_degree queue [] of
           Inl e \<Rightarrow> Inl e
         | Inr result \<Rightarrow>
             if length result < card (nodes g)
             then Inl (ValueError (take 10 (sorted_list_of_set (nodes g - set result))))
             else Inr result)"

text \<open>The body of \<open>for node in current_layer_nodes\<close> in \<open>get_layers\<close>.\<close>

fun relax_all :: "DependencyGraph \<Rightarrow> string list \<Rightarrow> (string \<times> int) list \<Rightarrow> string list
                    \<Rightarrow> error + ((string \<times> int) list \<times> string list)" where
  "relax_all g [] in_degree next_layer_nodes = Inr (in_degree, next_layer_nodes)"
| "relax_all g (node # rest) in_degree next_layer_nodes =
     (case relax (sorted_list_of_set (depended_by g node)) in_degree next_layer_nodes of
        Inl e \<Rightarrow> Inl e
      | Inr (in_degree', next') \<Rightarrow> relax_all g rest in_degree' next')"

lemma relax_all_measure:
  "relax_all g cur al q = Inr (al', q') \<Longrightarrow>
   length q' + 2 * in_degree_sum al' \<le> length q + 2 * in_degree_sum al"
proof (induction cur arbitrary: al q)
  case Nil
  then show ?case by simp
next
  case (Cons c cur)
  from Cons.prems obtain al1 q1 where
    r: "relax (sorted_list_of_set (depended_by g c)) al q = Inr (al1, q1)" and
    ra: "relax_all g cur al1 q1 = Inr (al', q')"
    by (auto split: sum.splits)
  from relax_measure[OF r] Cons.IH[OF ra] show ?case by linarith
qed

function layers_loop :: "DependencyGraph \<Rightarrow> (string \<times> int) list \<Rightarrow> string list \<Rightarrow> string list list
                           \<Rightarrow> error + string list list" where
  "layers_loop g in_degree current_layer_nodes layers =
     (if current_layer_nodes = [] then Inr layers
      else case relax_all g current_layer_nodes in_degree [] of
             Inl e \<Rightarrow> Inl e
           | Inr (in_degree', next_layer_nodes) \<Rightarrow>
               layers_loop g in_degree' next_layer_nodes
                 (if next_layer_nodes \<noteq> [] then layers @ [sort next_layer_nodes] else layers))"
  by pat_completeness auto
termination
proof (relation "measure (\<lambda>(g, al, cur, ls). length cur + 2 * in_degree_sum al)")
  show "wf (measure (\<lambda>(g, al, cur, ls). length cur + 2 * in_degree_sum al))" by simp
next
  fix g :: DependencyGraph and in_degree current_layer_nodes and layers :: "string list list"
    and x2 x y
  assume ne: "current_layer_nodes \<noteq> []"
     and "relax_all g current_layer_nodes in_degree [] = Inr x2" and "(x, y) = x2"
  then have "relax_all g current_layer_nodes in_degree [] = Inr (x, y)" by simp
  from relax_all_measure[OF this] ne
  show "((g, x, y, if y \<noteq> [] then layers @ [sort y] else layers),
         (g, in_degree, current_layer_nodes, layers))
          \<in> measure (\<lambda>(g, al, cur, ls). length cur + 2 * in_degree_sum al)"
    by (cases current_layer_nodes) auto
qed

declare layers_loop.simps [simp del]

definition get_layers :: "DependencyGraph \<Rightarrow> error + string list list" where
  "get_layers g =
     (let in_degree = init_in_degree g;
          current_layer_nodes =
            filter (\<lambda>node. map_of in_degree node = Some 0) (sorted_list_of_set (nodes g))
      in layers_loop g in_degree current_layer_nodes
           (if current_layer_nodes \<noteq> [] then [sort current_layer_nodes] else []))"

text \<open>\<open>get_node_layer\<close>: the index of the first layer that holds the node, or -1.\<close>

fun find_layer :: "string \<Rightarrow> string list list \<Rightarrow> int \<Rightarrow> int" where
  "find_layer node [] i = -1"
| "find_layer node (layer # rest) i = (if node \<in> set layer then i else find_layer node rest (i + 1))"

definition get_node_layer :: "DependencyGraph \<Rightarrow> string \<Rightarrow> error + int" where
  "get_node_layer g node =
     (case get_layers g of Inl e \<Rightarrow> Inl e | Inr layers \<Rightarrow> Inr (find_layer node layers 0))"

section \<open>Well-formed graphs\<close>

text \<open>
  The class invariant of \<open>DependencyGraph\<close>: finitely many nodes, every edge between nodes,
  and \<open>depended_by\<close> the converse of \<open>depends_on\<close>.
\<close>

definition wf_graph :: "DependencyGraph \<Rightarrow> bool" where
  "wf_graph g \<longleftrightarrow>
     finite (nodes g)
     \<and> (\<forall>a b. b \<in> depends_on g a \<longrightarrow> a \<in> nodes g \<and> b \<in> nodes g)
     \<and> (\<forall>a b. a \<in> depended_by g b \<longleftrightarrow> b \<in> depends_on g a)"

text \<open>
  The analyzer's graph, read as a set of edges, and its invariant for a set \<open>K\<close> of keys:
  the nodes are exactly \<open>K\<close> and every edge joins two of them. \<open>ao_key\<close> is the key of an
  object, \<open>obj.qualified_name.lower()\<close>.
\<close>

definition di_edge_set :: "DiGraph \<Rightarrow> (string \<times> string) set" where
  "di_edge_set g = (\<lambda>e. (fst e, fst (snd e))) ` set (di_edges g)"

definition ao_key :: "AssessmentObject \<Rightarrow> string" where
  "ao_key obj = lower (ao_qualified_name obj)"

definition di_wf :: "string set \<Rightarrow> DiGraph \<Rightarrow> bool" where
  "di_wf K g \<longleftrightarrow> set (di_nodes g) = K \<and> di_edge_set g \<subseteq> K \<times> K"

text \<open>
  The three rules that give the analyzer its edges, as sets of pairs of keys:
  \<open>resolve_dep\<close> is the name a declared dependency is looked up under (stripped, lowercased,
  and qualified with the owner's schema when it holds no dot); \<open>explicit_edges\<close> are the
  declared dependencies that resolve to a key of the input; \<open>statistics_edges\<close> join a
  statistics object to the tables of its schema whose name occurs in its own;
  \<open>external_source_edges\<close> join an external table to every external data source.
  \<open>implicit_edges_for\<close> collects the edges the last two rules give one object.
\<close>

definition resolve_dep :: "AssessmentObject \<Rightarrow> string \<Rightarrow> string" where
  "resolve_dep obj dep =
     (if CHR ''.'' \<notin> set (lower (strip dep))
      then lower (ao_schema_name obj) @ ''.'' @ lower (strip dep) else lower (strip dep))"

definition explicit_edges :: "AssessmentObject list \<Rightarrow> (string \<times> string) set" where
  "explicit_edges objects =
     {(ao_key ob, resolve_dep ob d) |ob d.
        ob \<in> set objects \<and> d \<in> set (ao_dependencies ob) \<and> resolve_dep ob d \<in> ao_key ` set objects}"

definition statistics_edges :: "AssessmentObject list \<Rightarrow> (string \<times> string) set" where
  "statistics_edges objects =
     {(ao_key ob, ao_key t) |ob t.
        ob \<in> set objects \<and> ao_object_type ob = ''STATISTICS'' \<and> t \<in> set objects
        \<and> ao_object_type t = ''TABLE'' \<and> lower (ao_schema_name t) = lower (ao_schema_name ob)
        \<and> sublist (table_name_of (ao_key t)) (lower (ao_name ob))}"

definition external_source_edges :: "AssessmentObject list \<Rightarrow> (string \<times> string) set" where
  "external_source_edges objects =
     {(ao_key ob, ao_key s) |ob s.
        ob \<in> set objects \<and> ao_object_type ob = ''EXTERNAL_TABLE'' \<and> s \<in> set objects
        \<and> ao_object_type s = ''EXTERNAL_DATA_SOURCE''}"

definition implicit_edges_for :: "AssessmentObject list \<Rightarrow> AssessmentObject \<Rightarrow> (string \<times> string) set" where
  "implicit_edges_for objects ob =
     {(ao_key ob, ao_key t) |t.
        ao_object_type ob = ''STATISTICS'' \<and> t \<in> set objects
        \<and> ao_object_type t = ''TABLE'' \<and> lower (ao_schema_name t) = lower (ao_schema_name ob)
        \<and> sublist (table_name_of (ao_key t)) (lower (ao_name ob))}
     \<union> {(ao_key ob, ao_key s) |s.
        ao_object_type ob = ''EXTERNAL_TABLE'' \<and> s \<in> set objects
        \<and> ao_object_type s = ''EXTERNAL_DATA_SOURCE''}"

section \<open>Assessment processor: impact scores (dependency_analyzer.py)\<close>

text \<open>
  \<open>_get_descendants\<close>: a breadth-first traversal along incoming edges, with a queue of
  pairs (node, depth); an entry whose depth has reached \<open>max_depth\<close> is dropped without being
  expanded. \<open>visit_preds\<close> is the inner loop over the predecessors of the current node. The
  two lemmas before \<open>descendants_loop\<close> give its termination: every pass takes one entry
  from the queue, and every entry added is a node that was not visited before.
\<close>

fun visit_preds :: "string \<Rightarrow> int \<Rightarrow> string list \<Rightarrow> string set \<Rightarrow> (string \<times> int) list
                      \<Rightarrow> string set \<times> (string \<times> int) list" where
  "visit_preds node_key depth [] visited queue = (visited, queue)"
| "visit_preds node_key depth (predecessor # rest) visited queue =
     (if predecessor \<notin> visited \<and> predecessor \<noteq> node_key
      then visit_preds node_key depth rest (insert predecessor visited) (queue @ [(predecessor, depth + 1)])
      else visit_preds node_key depth rest visited queue)"

definition pred_universe :: "DiGraph \<Rightarrow> string set" where
  "pred_universe g = fst ` set (di_edges g)"

lemma visit_preds_measure:
  "visit_preds n e ps visited queue = (visited', queue') \<Longrightarrow> finite U \<Longrightarrow> set ps \<subseteq> U \<Longrightarrow>
   2 * card (U - visited') + length queue' \<le> 2 * card (U - visited) + length queue"
proof (induction ps arbitrary: visited queue)
  case Nil
  then show ?case by simp
next
  case (Cons p ps)
  show ?case
  proof (cases "p \<notin> visited \<and> p \<noteq> n")
    case True
    with Cons.prems have "visit_preds n e ps (insert p visited) (queue @ [(p, e + 1)]) = (visited', queue')"
      by simp
    from Cons.IH[OF this Cons.prems(2)] Cons.prems(3)
    have le: "2 * card (U - visited') + length queue'
              \<le> 2 * card (U - insert p visited) + length (queue @ [(p, e + 1)])" by simp
    have "p \<in> U - visited" using True Cons.prems(3) by simp
    moreover have "U - insert p visited = (U - visited) - {p}" by auto
    ultimately have "card (U - insert p visited) < card (U - visited)"
      using Cons.prems(2) card_Diff1_less[of "U - visited" p] by simp
    with le show ?thesis by simp
  next
    case False
    with Cons.prems have "visit_preds n e ps visited queue = (visited', queue')" by auto
    from Cons.IH[OF this Cons.prems(2)] Cons.prems(3) show ?thesis by simp
  qed
qed

lemma visit_preds_decrease:
  assumes "visit_preds n e (predecessors g c) visited queue = (visited', queue')"
  shows "2 * card (pred_universe g - visited') + length queue'
           \<le> 2 * card (pred_universe g - visited) + length queue"
proof -
  have "set (predecessors g c) \<subseteq> pred_universe g"
    by (auto simp: predecessors_def pred_universe_def)
  moreover have "finite (pred_universe g)" by (simp add: pred_universe_def)
  ultimately show ?thesis using visit_preds_measure[OF assms] by blast
qed

function descendants_loop :: "DiGraph \<Rightarrow> int \<Rightarrow> string \<Rightarrow> (string \<times> int) list \<Rightarrow> string set
                               \<Rightarrow> error + string set" where
  "descendants_loop g max_depth node_key [] visited = Inr visited"
| "descendants_loop g max_depth node_key ((current, depth) # queue) visited =
     (if depth \<ge> max_depth then descendants_loop g max_depth node_key queue visited
      else if current \<notin> set (di_nodes g) then Inl (NetworkXError current)
      else case visit_preds node_key depth (predecessors g current) visited queue of
             (visited', queue') \<Rightarrow> descendants_loop g max_depth node_key queue' visited')"
  by pat_completeness auto
termination
  apply (relation "measure (\<lambda>(g, md, n, q, v). 2 * card (pred_universe g - v) + length q)")
    apply simp
   apply simp
  apply (drule sym)
  apply (drule visit_preds_decrease)
  apply simp
  done

definition get_descendants :: "DiGraph \<Rightarrow> int \<Rightarrow> string \<Rightarrow> error + string set" where
  "get_descendants g max_depth node_key = descendants_loop g max_depth node_key [(node_key, 0)] {}"

text \<open>
  \<open>calculate_impact_scores\<close> fills the dictionary of scores for the failed objects, and the
  constructor of the analyzer writes \<open>scores.get(key, 0)\<close> back onto every object.
\<close>

fun calculate_impact_scores_loop :: "DiGraph \<Rightarrow> int \<Rightarrow> AssessmentObject list \<Rightarrow> (string \<rightharpoonup> int)
                                       \<Rightarrow> error + (string \<rightharpoonup> int)" where
  "calculate_impact_scores_loop g max_depth [] scores = Inr scores"
| "calculate_impact_scores_loop g max_depth (obj # rest) scores =
     (if \<not> is_failed obj then calculate_impact_scores_loop g max_depth rest scores
      else case get_descendants g max_depth (ao_key obj) of
             Inl e \<Rightarrow> Inl e
           | Inr descendants \<Rightarrow>
               calculate_impact_scores_loop g max_depth rest
                 (scores(ao_key obj \<mapsto> int (card descendants))))"

definition calculate_impact_scores :: "DiGraph \<Rightarrow> int \<Rightarrow> AssessmentObject list \<Rightarrow> error + (string \<rightharpoonup> int)" where
  "calculate_impact_scores g max_depth objects = calculate_impact_scores_loop g max_depth objects Map.empty"

record DependencyAnalyzer =
  da_objects :: "AssessmentObject list"
  da_max_depth :: int
  da_enable_impact_scoring :: bool
  da_graph :: DiGraph
  da_impact_scores :: "string \<rightharpoonup> int"

definition new_analyzer :: "AssessmentObject list \<Rightarrow> int \<Rightarrow> bool \<Rightarrow> error + DependencyAnalyzer" where
  "new_analyzer objects max_depth enable_impact_scoring =
     (let graph = build_graph objects in
      if enable_impact_scoring
      then case calculate_impact_scores graph max_depth objects of
             Inl e \<Rightarrow> Inl e
           | Inr scores \<Rightarrow>
               Inr \<lparr> da_objects =
                       map (\<lambda>obj. obj\<lparr> ao_impact_score :=
                                         (case scores (ao_key obj) of None \<Rightarrow> 0 | Some v \<Rightarrow> v) \<rparr>) objects,
                     da_max_depth = max_depth, da_enable_impact_scoring = enable_impact_scoring,
                     da_graph = graph, da_impact_scores = scores \<rparr>
      else Inr \<lparr> da_objects = objects, da_max_depth = max_depth,
                 da_enable_impact_scoring = enable_impact_scoring,
                 da_graph = graph, da_impact_scores = Map.empty \<rparr>)"

text \<open>
  \<open>reach g n k\<close> holds the nodes from which \<open>n\<close> is reached along at most \<open>k\<close> dependency
  edges (\<open>n\<close> itself included); \<open>descendants g n\<close> holds all the nodes that transitively
  depend on \<open>n\<close>. The predicates \<open>bfs_\<close>... are the parts of the invariant of the traversal
  at level \<open>d\<close>: the queue holds entries of depth \<open>d\<close> followed by entries of depth \<open>d + 1\<close>,
  each node at its recorded distance; all nodes nearer than \<open>d\<close> are expanded; a node at
  distance at most \<open>d\<close> is still queued or expanded; a visited node farther than \<open>d\<close> is
  queued at depth \<open>d + 1\<close>.
\<close>

primrec reach :: "DiGraph \<Rightarrow> string \<Rightarrow> nat \<Rightarrow> string set" where
  "reach g n 0 = {n}"
| "reach g n (Suc k) = reach g n k \<union> (\<Union>c \<in> reach g n k. set (predecessors g c))"

definition descendants :: "DiGraph \<Rightarrow> string \<Rightarrow> string set" where
  "descendants g n = {p. (p, n) \<in> (di_edge_set g)\<^sup>+}"

definition bounded_score :: "DiGraph \<Rightarrow> int \<Rightarrow> string \<Rightarrow> int" where
  "bounded_score g max_depth n = int (card (reach g n (nat max_depth) - {n}))"

definition bfs_queue_ok :: "DiGraph \<Rightarrow> string \<Rightarrow> nat \<Rightarrow> string set \<Rightarrow> (string \<times> int) list \<Rightarrow> bool" where
  "bfs_queue_ok g n d visited queue \<longleftrightarrow>
     (\<forall>c e. (c, e) \<in> set queue \<longrightarrow>
        (e = int d \<or> e = int d + 1) \<and> c \<in> reach g n (nat e) \<and> c \<in> insert n visited
        \<and> c \<in> set (di_nodes g))"

definition bfs_expanded :: "DiGraph \<Rightarrow> int \<Rightarrow> string \<Rightarrow> nat \<Rightarrow> string set \<Rightarrow> bool" where
  "bfs_expanded g D n d visited \<longleftrightarrow>
     (\<forall>k<d. int k < D \<longrightarrow> (\<forall>c \<in> reach g n k. set (predecessors g c) \<subseteq> insert n visited))"

definition bfs_level :: "DiGraph \<Rightarrow> int \<Rightarrow> string \<Rightarrow> nat \<Rightarrow> string set \<Rightarrow> (string \<times> int) list \<Rightarrow> bool" where
  "bfs_level g D n d visited queue \<longleftrightarrow>
     (int d < D \<longrightarrow> (\<forall>c \<in> reach g n d. (c, int d) \<in> set queue
                                  \<or> set (predecessors g c) \<subseteq> insert n visited))"

definition bfs_next :: "DiGraph \<Rightarrow> string \<Rightarrow> nat \<Rightarrow> string set \<Rightarrow> (string \<times> int) list \<Rightarrow> bool" where
  "bfs_next g n d visited queue \<longleftrightarrow>
     (\<forall>c \<in> visited. c \<notin> reach g n d \<longrightarrow> (c, int d + 1) \<in> set queue)"

definition bfs_inv :: "DiGraph \<Rightarrow> int \<Rightarrow> string \<Rightarrow> nat \<Rightarrow> (string \<times> int) list \<Rightarrow> string set \<Rightarrow> bool" where
  "bfs_inv g D n d queue visited \<longleftrightarrow>
     bfs_queue_ok g n d visited queue \<and> sorted (map snd queue)
     \<and> bfs_expanded g D n d visited \<and> bfs_level g D n d visited queue
     \<and> bfs_next g n d visited queue \<and> visited \<subseteq> reach g n (nat D) - {n}"

text \<open>
  Objects as the dataclass constructors build them, with the defaults of the fields that are
  not given: \<open>DatabaseObject(name, object_type, schema_name, status, dependencies=deps)\<close> and
  \<open>AssessmentObject(name, object_type, schema_name, status, dependencies=deps)\<close>.
\<close>

definition db_object :: "string \<Rightarrow> ObjectType \<Rightarrow> string \<Rightarrow> string \<Rightarrow> string list \<Rightarrow> DatabaseObject" where
  "db_object n t s st deps =
     \<lparr> name = n, object_type = t, schema_name = s, status = st, failure_reason = [],
       dependencies = deps, failure_category = [], impact_score = 0 \<rparr>"

definition assessment_object :: "string \<Rightarrow> string \<Rightarrow> string \<Rightarrow> string \<Rightarrow> string list \<Rightarrow> AssessmentObject" where
  "assessment_object n t s st deps =
     \<lparr> ao_name = n, ao_object_type = t, ao_schema_name = s, ao_status = st, ao_failure_reason = [],
       ao_dependencies = deps, ao_impact_score = 0, ao_failure_category = [] \<rparr>"

text \<open>
  The edge relation (a pair \<open>(a, b)\<close> reads "a depends on b"), the nodes whose dependencies
  all lie in a set \<open>P\<close>, and the invariants of the in-degree table and of the Kahn loop:
  with \<open>P\<close> the nodes already taken from the queue, the table holds for each node the number
  of its dependencies outside \<open>P\<close>.
\<close>

definition dep_rel :: "DependencyGraph \<Rightarrow> (string \<times> string) set" where
  "dep_rel g = {(a, b). b \<in> depends_on g a}"

definition ready :: "DependencyGraph \<Rightarrow> string set \<Rightarrow> string set" where
  "ready g P = {n \<in> nodes g. depends_on g n \<subseteq> P}"

definition deg_ok :: "DependencyGraph \<Rightarrow> (string \<times> int) list \<Rightarrow> string set \<Rightarrow> bool" where
  "deg_ok g al P \<longleftrightarrow>
     (\<forall>n. map_of al n = (if n \<in> nodes g then Some (int (card (depends_on g n - P))) else None))"

definition kahn_inv :: "DependencyGraph \<Rightarrow> (string \<times> int) list \<Rightarrow> string list \<Rightarrow> string list \<Rightarrow> bool" where
  "kahn_inv g al queue result \<longleftrightarrow>
     deg_ok g al (set result) \<and> distinct (result @ queue)
     \<and> set (result @ queue) = ready g (set result)
     \<and> (\<forall>i<length result. depends_on g (result ! i) \<subseteq> set (take i result))"

text \<open>
  A list of layers is \<open>layered\<close> when every node of layer \<open>k\<close> has all its dependencies in
  the layers before \<open>k\<close>; \<open>layers_inv\<close> is the invariant of the loop of \<open>get_layers\<close>, where
  the nodes already processed are those of the layers minus the current wavefront.
\<close>

definition layered :: "DependencyGraph \<Rightarrow> string list list \<Rightarrow> bool" where
  "layered g layers \<longleftrightarrow>
     (\<forall>k<length layers. \<forall>n \<in> set (layers ! k). depends_on g n \<subseteq> set (concat (take k layers)))"

definition layers_inv :: "DependencyGraph \<Rightarrow> (string \<times> int) list \<Rightarrow> string list \<Rightarrow> string list list \<Rightarrow> bool" where
  "layers_inv g al current layers \<longleftrightarrow>
     deg_ok g al (set (concat layers) - set current)
     \<and> distinct (concat layers)
     \<and> set (concat layers) = ready g (set (concat layers) - set current)
     \<and> set current \<subseteq> set (concat layers) \<and> distinct current
     \<and> layered g layers \<and> [] \<notin> set layers"

text \<open>
  The layer lookup of \<open>_partition_balanced\<close> (balanced_strategy.py): the dictionary
  \<open>node_to_layer\<close> filled from the layers, and the first component of the sort key,
  \<open>node_to_layer.get(o.qualified_name, 999)\<close>.
\<close>

primrec node_to_layer_loop :: "string list list \<Rightarrow> int \<Rightarrow> (string \<rightharpoonup> int) \<Rightarrow> (string \<rightharpoonup> int)" where
  "node_to_layer_loop [] layer_idx m = m"
| "node_to_layer_loop (layer_nodes # rest) layer_idx m =
     node_to_layer_loop rest (layer_idx + 1) (fold (\<lambda>node m. m(node \<mapsto> layer_idx)) layer_nodes m)"

definition node_to_layer :: "string list list \<Rightarrow> (string \<rightharpoonup> int)" where
  "node_to_layer all_layers = node_to_layer_loop all_layers 0 Map.empty"

definition layer_key :: "string list list \<Rightarrow> string \<Rightarrow> int" where
  "layer_key all_layers qname = (case node_to_layer all_layers qname of None \<Rightarrow> 999 | Some l \<Rightarrow> l)"

text \<open>
  Two inputs used below. The first is the example of four tables: \<open>A\<close> and \<open>C\<close> without
  dependencies, \<open>B\<close> depending on \<open>A\<close>, and \<open>D\<close> on \<open>B\<close> and \<open>C\<close>. The second is a cycle of
  three tables.
\<close>

definition ex_acyclic :: "DatabaseObject list" where
  "ex_acyclic = [db_object ''A'' TABLE ''dbo'' ''Passed'' [],
                 db_object ''B'' TABLE ''dbo'' ''Passed'' [''dbo.A''],
                 db_object ''C'' TABLE ''dbo'' ''Passed'' [],
                 db_object ''D'' TABLE ''dbo'' ''Passed'' [''dbo.B'', ''dbo.C'']]"

definition ex_cycle :: "DatabaseObject list" where
  "ex_cycle = [db_object ''X'' TABLE ''dbo'' ''Passed'' [''dbo.Y''],
               db_object ''Y'' TABLE ''dbo'' ''Passed'' [''dbo.Z''],
               db_object ''Z'' TABLE ''dbo'' ''Passed'' [''dbo.X'']]"

text \<open>
  Two inputs of the analyzer: a chain of twelve tables, each depending on the one before, the
  first of them failed; and a chain of three objects.
\<close>

definition ex_chain :: "AssessmentObject list" where
  "ex_chain = [assessment_object ''o00'' ''TABLE'' ''dbo'' ''Failed'' [],
     assessment_object ''o01'' ''TABLE'' ''dbo'' ''Passed'' [''dbo.o00''],
     assessment_object ''o02'' ''TABLE'' ''dbo'' ''Passed'' [''dbo.o01''],
     assessment_object ''o03'' ''TABLE'' ''dbo'' ''Passed'' [''dbo.o02''],
     assessment_object ''o04'' ''TABLE'' ''dbo'' ''Passed'' [''dbo.o03''],
     assessment_object ''o05'' ''TABLE'' ''dbo'' ''Passed'' [''dbo.o04''],
     assessment_object ''o06'' ''TABLE'' ''dbo'' ''Passed'' [''dbo.o05''],
     assessment_object ''o07'' ''TABLE'' ''dbo'' ''Passed'' [''dbo.o06''],
     assessment_object ''o08'' ''TABLE'' ''dbo'' ''Passed'' [''dbo.o07''],
     assessment_object ''o09'' ''TABLE'' ''dbo'' ''Passed'' [''dbo.o08''],
     assessment_object ''o10'' ''TABLE'' ''dbo'' ''Passed'' [''dbo.o09''],
     assessment_object ''o11'' ''TABLE'' ''dbo'' ''Passed'' [''dbo.o10'']]"

definition ex_small_chain :: "AssessmentObject list" where
  "ex_small_chain = [assessment_object ''A'' ''TABLE'' ''dbo'' ''Failed'' [],
                     assessment_object ''B'' ''VIEW'' ''dbo'' ''Passed'' [''dbo.A''],
                     assessment_object ''C'' ''VIEW'' ''dbo'' ''Passed'' [''B'']]"

section \<open>Properties of graph construction\<close>

lemma wf_graph_empty: "wf_graph (empty_graph\<lparr> object_map := m \<rparr>)"
  by (simp add: wf_graph_def empty_graph_def)

lemma wf_graph_insert_node: "wf_graph g \<Longrightarrow> wf_graph (g\<lparr> nodes := insert n (nodes g) \<rparr>)"
  by (simp add: wf_graph_def)

lemma wf_graph_link:
  "wf_graph g \<Longrightarrow> a \<in> nodes g \<Longrightarrow>
   wf_graph (g\<lparr> nodes := insert b (nodes g),
               depends_on := (depends_on g)(a := insert b (depends_on g a)),
               depended_by := (depended_by g)(b := insert a (depended_by g b)) \<rparr>)"
  unfolding wf_graph_def by auto

lemma nodes_build_deps:
  "nodes (build_deps q ds g) = nodes g \<union> {strip d |d. d \<in> set ds \<and> strip d \<noteq> []}"
  by (induction ds arbitrary: g) (auto simp: Let_def)

lemma object_map_build_deps: "object_map (build_deps q ds g) = object_map g"
  by (induction ds arbitrary: g) (auto simp: Let_def)

lemma wf_graph_build_deps: "wf_graph g \<Longrightarrow> q \<in> nodes g \<Longrightarrow> wf_graph (build_deps q ds g)"
proof (induction ds arbitrary: g)
  case Nil
  then show ?case by simp
next
  case (Cons d ds)
  show ?case
  proof (cases "strip d = []")
    case True
    with Cons show ?thesis by simp
  next
    case False
    let ?g = "g\<lparr> nodes := insert (strip d) (nodes g),
               depends_on := (depends_on g)(q := insert (strip d) (depends_on g q)),
               depended_by := (depended_by g)(strip d := insert q (depended_by g (strip d))) \<rparr>"
    have "wf_graph ?g" using Cons.prems by (rule wf_graph_link)
    moreover have "q \<in> nodes ?g" using Cons.prems by simp
    ultimately have "wf_graph (build_deps q ds ?g)" by (rule Cons.IH)
    with False show ?thesis by (simp add: Let_def)
  qed
qed

lemma wf_graph_build: "wf_graph g \<Longrightarrow> wf_graph (build objs g)"
proof (induction objs arbitrary: g)
  case Nil
  then show ?case by simp
next
  case (Cons obj objs)
  have "wf_graph (build_deps (qualified_name obj) (dependencies obj)
                   (g\<lparr> nodes := insert (qualified_name obj) (nodes g) \<rparr>))"
    by (rule wf_graph_build_deps) (simp_all add: wf_graph_insert_node Cons.prems)
  then show ?case by (simp add: Cons.IH)
qed

lemma nodes_build:
  "nodes (build objs g) = nodes g \<union> qualified_name ` set objs
     \<union> {strip d |d obj. obj \<in> set objs \<and> d \<in> set (dependencies obj) \<and> strip d \<noteq> []}"
  by (induction objs arbitrary: g) (auto simp: nodes_build_deps)

lemma object_map_build: "object_map (build objs g) = object_map g"
  by (induction objs arbitrary: g) (auto simp: object_map_build_deps)

lemma wf_graph_add_edge: "wf_graph g \<Longrightarrow> wf_graph (add_edge a b g)"
  unfolding wf_graph_def add_edge_def by auto

lemma nodes_add_edge: "nodes (add_edge a b g) = (if a = b then nodes g else insert b (insert a (nodes g)))"
  by (simp add: add_edge_def)

lemma object_map_add_edge: "object_map (add_edge a b g) = object_map g"
  by (simp add: add_edge_def)

lemma depends_on_add_edge:
  "depends_on (add_edge a b g) x = (if a \<noteq> b \<and> x = a then insert b (depends_on g a) else depends_on g x)"
  by (simp add: add_edge_def)


lemma wf_graph_add_schema_edges: "wf_graph g \<Longrightarrow> wf_graph (add_schema_edges obj schemas g)"
  by (induction schemas arbitrary: g) (auto simp: wf_graph_add_edge split: option.splits)

lemma object_map_add_schema_edges: "object_map (add_schema_edges obj schemas g) = object_map g"
  by (induction schemas arbitrary: g) (auto simp: object_map_add_edge split: option.splits)

lemma nodes_add_schema_edges:
  "insert (qualified_name obj) (set schemas) \<subseteq> nodes g \<Longrightarrow> nodes (add_schema_edges obj schemas g) = nodes g"
proof (induction schemas arbitrary: g)
  case Nil
  then show ?case by simp
next
  case (Cons s schemas)
  let ?g = "case object_map g s of None \<Rightarrow> g
            | Some schema_obj \<Rightarrow> if name schema_obj = schema_name obj
                                 then add_edge (qualified_name obj) s g else g"
  have n: "nodes ?g = nodes g" using Cons.prems
    by (auto simp: nodes_add_edge split: option.splits)
  with Cons.prems have "insert (qualified_name obj) (set schemas) \<subseteq> nodes ?g" by simp
  from Cons.IH[OF this] n show ?case by simp
qed

lemma depends_on_add_schema_edges_mono:
  "depends_on g x \<subseteq> depends_on (add_schema_edges obj schemas g) x"
proof (induction schemas arbitrary: g)
  case Nil
  then show ?case by simp
next
  case (Cons s schemas)
  let ?g = "case object_map g s of None \<Rightarrow> g
            | Some schema_obj \<Rightarrow> if name schema_obj = schema_name obj
                                 then add_edge (qualified_name obj) s g else g"
  have "depends_on g x \<subseteq> depends_on ?g x"
    by (auto simp: depends_on_add_edge split: option.splits)
  also have "\<dots> \<subseteq> depends_on (add_schema_edges obj schemas ?g) x" by (rule Cons.IH)
  finally show ?case by simp
qed

lemma wf_graph_add_all_schema_edges: "wf_graph g \<Longrightarrow> wf_graph (add_all_schema_edges q schemas g)"
  by (induction schemas arbitrary: g) (auto simp: wf_graph_add_edge)

lemma object_map_add_all_schema_edges: "object_map (add_all_schema_edges q schemas g) = object_map g"
  by (induction schemas arbitrary: g) (auto simp: object_map_add_edge)

lemma nodes_add_all_schema_edges:
  "insert q (set schemas) \<subseteq> nodes g \<Longrightarrow> nodes (add_all_schema_edges q schemas g) = nodes g"
proof (induction schemas arbitrary: g)
  case Nil
  then show ?case by simp
next
  case (Cons s schemas)
  have n: "nodes (add_edge q s g) = nodes g" using Cons.prems
    by (auto simp: nodes_add_edge)
  with Cons.prems have "insert q (set schemas) \<subseteq> nodes (add_edge q s g)" by simp
  from Cons.IH[OF this] n show ?case by simp
qed

lemma depends_on_add_all_schema_edges_mono:
  "depends_on g x \<subseteq> depends_on (add_all_schema_edges q schemas g) x"
proof (induction schemas arbitrary: g)
  case Nil
  then show ?case by simp
next
  case (Cons s schemas)
  have "depends_on g x \<subseteq> depends_on (add_edge q s g) x"
    by (auto simp: depends_on_add_edge)
  also have "\<dots> \<subseteq> depends_on (add_all_schema_edges q schemas (add_edge q s g)) x" by (rule Cons.IH)
  finally show ?case by simp
qed

lemma wf_graph_add_type_edges: "wf_graph g \<Longrightarrow> wf_graph (add_type_edges q ty objs g)"
  by (induction objs arbitrary: g) (auto simp: wf_graph_add_edge)

lemma object_map_add_type_edges: "object_map (add_type_edges q ty objs g) = object_map g"
  by (induction objs arbitrary: g) (auto simp: object_map_add_edge)

lemma nodes_add_type_edges:
  "insert q (qualified_name ` set objs) \<subseteq> nodes g \<Longrightarrow> nodes (add_type_edges q ty objs g) = nodes g"
proof (induction objs arbitrary: g)
  case Nil
  then show ?case by simp
next
  case (Cons obj objs)
  let ?g = "if object_type obj = ty then add_edge q (qualified_name obj) g else g"
  have n: "nodes ?g = nodes g" using Cons.prems
    by (auto simp: nodes_add_edge)
  with Cons.prems have "insert q (qualified_name ` set objs) \<subseteq> nodes ?g" by simp
  from Cons.IH[OF this] n show ?case by simp
qed

lemma depends_on_add_type_edges_mono:
  "depends_on g x \<subseteq> depends_on (add_type_edges q ty objs g) x"
proof (induction objs arbitrary: g)
  case Nil
  then show ?case by simp
next
  case (Cons obj objs)
  let ?g = "if object_type obj = ty then add_edge q (qualified_name obj) g else g"
  have "depends_on g x \<subseteq> depends_on ?g x"
    by (auto simp: depends_on_add_edge)
  also have "\<dots> \<subseteq> depends_on (add_type_edges q ty objs ?g) x" by (rule Cons.IH)
  finally show ?case by simp
qed

lemma add_type_edges_adds:
  "other \<in> set objs \<Longrightarrow> object_type other = ty \<Longrightarrow> q \<noteq> qualified_name other \<Longrightarrow>
   qualified_name other \<in> depends_on (add_type_edges q ty objs g) q"
proof (induction objs arbitrary: g)
  case Nil
  then show ?case by simp
next
  case (Cons obj objs)
  let ?g = "if object_type obj = ty then add_edge q (qualified_name obj) g else g"
  show ?case
  proof (cases "other = obj")
    case True
    with Cons.prems have "qualified_name other \<in> depends_on ?g q"
      by (simp add: depends_on_add_edge)
    with depends_on_add_type_edges_mono[of ?g q q ty objs] show ?thesis by auto
  next
    case False
    with Cons.prems have "other \<in> set objs" by simp
    from Cons.IH[OF this Cons.prems(2,3)] show ?thesis by simp
  qed
qed

lemma wf_graph_implicit_edges_of: "wf_graph g \<Longrightarrow> wf_graph (implicit_edges_of objects schemas obj g)"
  by (simp add: implicit_edges_of_def Let_def wf_graph_add_schema_edges
      wf_graph_add_all_schema_edges wf_graph_add_type_edges)

lemma object_map_implicit_edges_of: "object_map (implicit_edges_of objects schemas obj g) = object_map g"
  by (simp add: implicit_edges_of_def Let_def object_map_add_schema_edges
      object_map_add_all_schema_edges object_map_add_type_edges)

lemma nodes_implicit_edges_of:
  assumes "insert (qualified_name obj) (set schemas \<union> qualified_name ` set objects) \<subseteq> nodes g"
  shows "nodes (implicit_edges_of objects schemas obj g) = nodes g"
proof -
  let ?q = "qualified_name obj"
  from assms have a: "insert ?q (set schemas) \<subseteq> nodes g"
    and b: "insert ?q (qualified_name ` set objects) \<subseteq> nodes g" by auto
  have t1: "nodes (add_type_edges ?q EXTERNAL_DATA_SOURCE objects g) = nodes g"
    by (rule nodes_add_type_edges[OF b])
  have "insert ?q (qualified_name ` set objects)
          \<subseteq> nodes (add_type_edges ?q EXTERNAL_DATA_SOURCE objects g)"
    using b t1 by simp
  from nodes_add_type_edges[OF this] t1
  have t2: "nodes (add_type_edges ?q EXTERNAL_FILE_FORMAT objects
              (add_type_edges ?q EXTERNAL_DATA_SOURCE objects g)) = nodes g" by simp
  show ?thesis
    by (cases "object_type obj")
       (simp_all add: implicit_edges_of_def Let_def nodes_add_schema_edges[OF a]
          nodes_add_all_schema_edges[OF a] t2)
qed

lemma depends_on_implicit_edges_of_mono:
  "depends_on g x \<subseteq> depends_on (implicit_edges_of objects schemas obj g) x"
proof -
  let ?q = "qualified_name obj"
  let ?g1 = "add_type_edges ?q EXTERNAL_DATA_SOURCE objects g"
  have "depends_on g x \<subseteq> depends_on ?g1 x" by (rule depends_on_add_type_edges_mono)
  also have "\<dots> \<subseteq> depends_on (add_type_edges ?q EXTERNAL_FILE_FORMAT objects ?g1) x"
    by (rule depends_on_add_type_edges_mono)
  finally have t: "depends_on g x \<subseteq> depends_on (add_type_edges ?q EXTERNAL_FILE_FORMAT objects ?g1) x" .
  show ?thesis
    by (cases "object_type obj")
       (simp_all add: implicit_edges_of_def Let_def depends_on_add_schema_edges_mono
          depends_on_add_all_schema_edges_mono t)
qed

lemma implicit_edges_of_external:
  assumes "object_type obj = EXTERNAL_TABLE" "other \<in> set objects"
    "object_type other = EXTERNAL_DATA_SOURCE \<or> object_type other = EXTERNAL_FILE_FORMAT"
    "qualified_name obj \<noteq> qualified_name other"
  shows "qualified_name other \<in> depends_on (implicit_edges_of objects schemas obj g) (qualified_name obj)"
proof -
  let ?q = "qualified_name obj"
  let ?g1 = "add_type_edges ?q EXTERNAL_DATA_SOURCE objects g"
  let ?g2 = "add_type_edges ?q EXTERNAL_FILE_FORMAT objects ?g1"
  have eq: "implicit_edges_of objects schemas obj g = ?g2"
    using assms(1) by (simp add: implicit_edges_of_def Let_def)
  from assms(3) have "qualified_name other \<in> depends_on ?g2 ?q"
  proof
    assume "object_type other = EXTERNAL_DATA_SOURCE"
    from add_type_edges_adds[OF assms(2) this assms(4)]
    have "qualified_name other \<in> depends_on ?g1 ?q" .
    with depends_on_add_type_edges_mono[of ?g1 ?q ?q EXTERNAL_FILE_FORMAT objects]
    show ?thesis by auto
  next
    assume "object_type other = EXTERNAL_FILE_FORMAT"
    from add_type_edges_adds[OF assms(2) this assms(4)] show ?thesis .
  qed
  with eq show ?thesis by simp
qed

lemma wf_graph_implicit_loop: "wf_graph g \<Longrightarrow> wf_graph (implicit_loop objects schemas objs g)"
  by (induction objs arbitrary: g) (auto simp: wf_graph_implicit_edges_of)

lemma object_map_implicit_loop: "object_map (implicit_loop objects schemas objs g) = object_map g"
  by (induction objs arbitrary: g) (auto simp: object_map_implicit_edges_of)

lemma nodes_implicit_loop:
  "qualified_name ` set objs \<union> set schemas \<union> qualified_name ` set objects \<subseteq> nodes g \<Longrightarrow>
   nodes (implicit_loop objects schemas objs g) = nodes g"
proof (induction objs arbitrary: g)
  case Nil
  then show ?case by simp
next
  case (Cons obj objs)
  from Cons.prems
  have n: "nodes (implicit_edges_of objects schemas obj g) = nodes g"
    by (intro nodes_implicit_edges_of) auto
  with Cons.prems
  have "qualified_name ` set objs \<union> set schemas \<union> qualified_name ` set objects
          \<subseteq> nodes (implicit_edges_of objects schemas obj g)" by auto
  from Cons.IH[OF this] n show ?case by simp
qed

lemma depends_on_implicit_loop_mono:
  "depends_on g x \<subseteq> depends_on (implicit_loop objects schemas objs g) x"
proof (induction objs arbitrary: g)
  case Nil
  then show ?case by simp
next
  case (Cons obj objs)
  have "depends_on g x \<subseteq> depends_on (implicit_edges_of objects schemas obj g) x"
    by (rule depends_on_implicit_edges_of_mono)
  also have "\<dots> \<subseteq> depends_on (implicit_loop objects schemas objs (implicit_edges_of objects schemas obj g)) x"
    by (rule Cons.IH)
  finally show ?case by simp
qed

lemma implicit_loop_external:
  assumes "obj \<in> set objs" "object_type obj = EXTERNAL_TABLE" "other \<in> set objects"
    "object_type other = EXTERNAL_DATA_SOURCE \<or> object_type other = EXTERNAL_FILE_FORMAT"
    "qualified_name obj \<noteq> qualified_name other"
  shows "qualified_name other \<in> depends_on (implicit_loop objects schemas objs g) (qualified_name obj)"
  using assms(1)
proof (induction objs arbitrary: g)
  case Nil
  then show ?case by simp
next
  case (Cons o1 objs)
  show ?case
  proof (cases "obj = o1")
    case True
    from implicit_edges_of_external[OF assms(2,3,4,5)]
    have "qualified_name other \<in> depends_on (implicit_edges_of objects schemas obj g) (qualified_name obj)" .
    with depends_on_implicit_loop_mono[of "implicit_edges_of objects schemas obj g" "qualified_name obj" objects schemas objs]
    show ?thesis using True by auto
  next
    case False
    with Cons.prems have "obj \<in> set objs" by simp
    from Cons.IH[OF this] show ?thesis by simp
  qed
qed

lemma wf_graph_new_graph: "wf_graph (new_graph objects)"
  by (simp add: new_graph_def add_implicit_edges_def wf_graph_implicit_loop wf_graph_build wf_graph_empty)

lemma nodes_new_graph:
  "nodes (new_graph objects) = qualified_name ` set objects
     \<union> {strip d |d obj. obj \<in> set objects \<and> d \<in> set (dependencies obj) \<and> strip d \<noteq> []}"
proof -
  let ?g = "build objects (empty_graph\<lparr> object_map := fill_object_map objects Map.empty \<rparr>)"
  have n: "nodes ?g = qualified_name ` set objects
     \<union> {strip d |d obj. obj \<in> set objects \<and> d \<in> set (dependencies obj) \<and> strip d \<noteq> []}"
    by (simp add: nodes_build empty_graph_def)
  have "nodes (implicit_loop objects (map qualified_name (filter (\<lambda>obj. object_type obj = SCHEMA) objects)) objects ?g)
          = nodes ?g"
    by (rule nodes_implicit_loop) (auto simp: n)
  with n show ?thesis by (simp add: new_graph_def add_implicit_edges_def)
qed

lemma new_graph_external:
  assumes "obj \<in> set objects" "object_type obj = EXTERNAL_TABLE" "other \<in> set objects"
    "object_type other = EXTERNAL_DATA_SOURCE \<or> object_type other = EXTERNAL_FILE_FORMAT"
    "qualified_name obj \<noteq> qualified_name other"
  shows "qualified_name other \<in> depends_on (new_graph objects) (qualified_name obj)"
  unfolding new_graph_def add_implicit_edges_def
  by (rule implicit_loop_external[OF assms])

lemma has_edge_iff: "has_edge g u v \<longleftrightarrow> (u, v) \<in> di_edge_set g"
  by (auto simp: has_edge_def di_edge_set_def)

lemma set_di_nodes_add_node: "set (di_nodes (add_node k g)) = insert k (set (di_nodes g))"
  by (auto simp: add_node_def)

lemma di_edges_add_node: "di_edges (add_node k g) = di_edges g"
  by (simp add: add_node_def)

lemma di_edge_set_add_node: "di_edge_set (add_node k g) = di_edge_set g"
  by (simp add: di_edge_set_def di_edges_add_node)

lemma set_di_nodes_di_add_edge:
  "set (di_nodes (di_add_edge u v t g)) = insert v (insert u (set (di_nodes g)))"
  by (simp add: di_add_edge_def Let_def set_di_nodes_add_node)

lemma di_edge_set_di_add_edge: "di_edge_set (di_add_edge u v t g) = insert (u, v) (di_edge_set g)"
proof (cases "has_edge (add_node v (add_node u g)) u v")
  case True
  then have in_set: "(u, v) \<in> di_edge_set g"
    by (simp add: has_edge_iff di_edge_set_add_node)
  have pt: "\<And>e. (\<lambda>e. (fst e, fst (snd e))) (if fst e = u \<and> fst (snd e) = v then (u, v, t) else e)
               = (fst e, fst (snd e))"
    by auto
  have "di_edge_set (di_add_edge u v t g)
          = (\<lambda>e. (fst e, fst (snd e))) ` (\<lambda>e. if fst e = u \<and> fst (snd e) = v then (u, v, t) else e) ` set (di_edges g)"
    using True by (simp add: di_add_edge_def Let_def di_edge_set_def di_edges_add_node)
  also have "\<dots> = (\<lambda>e. (fst e, fst (snd e))) ` set (di_edges g)"
    unfolding image_image pt ..
  finally show ?thesis using in_set by (auto simp: di_edge_set_def)
next
  case False
  then show ?thesis
    by (simp add: di_add_edge_def Let_def di_edge_set_def di_edges_add_node)
qed

lemma set_di_nodes_add_nodes:
  "set (di_nodes (add_nodes objs g)) = set (di_nodes g) \<union> ao_key ` set objs"
  by (induction objs arbitrary: g) (auto simp: set_di_nodes_add_node ao_key_def)

lemma di_edge_set_add_nodes: "di_edge_set (add_nodes objs g) = di_edge_set g"
  by (induction objs arbitrary: g) (auto simp: di_edge_set_add_node)

lemma di_wf_di_add_edge: "di_wf K g \<Longrightarrow> u \<in> K \<Longrightarrow> v \<in> K \<Longrightarrow> di_wf K (di_add_edge u v t g)"
  by (auto simp: di_wf_def set_di_nodes_di_add_edge di_edge_set_di_add_edge)

lemma di_wf_explicit_deps:
  "di_wf K g \<Longrightarrow> all_keys \<subseteq> K \<Longrightarrow> ao_key obj \<in> K \<Longrightarrow> di_wf K (explicit_deps all_keys obj deps g)"
proof (induction deps arbitrary: g)
  case Nil
  then show ?case by simp
next
  case (Cons d deps)
  show ?case
    using Cons.prems
    by (auto simp: Let_def ao_key_def intro!: Cons.IH di_wf_di_add_edge)
qed

lemma di_wf_explicit_loop:
  "di_wf K g \<Longrightarrow> all_keys \<subseteq> K \<Longrightarrow> ao_key ` set objs \<subseteq> K \<Longrightarrow> di_wf K (explicit_loop all_keys objs g)"
proof (induction objs arbitrary: g)
  case Nil
  then show ?case by simp
next
  case (Cons obj objs)
  from Cons.prems have "di_wf K (explicit_deps all_keys obj (ao_dependencies obj) g)"
    by (intro di_wf_explicit_deps) auto
  with Cons.prems show ?case by (auto intro!: Cons.IH)
qed

lemma di_wf_implicit_add_all:
  "di_wf K g \<Longrightarrow> k \<in> K \<Longrightarrow> set ks \<subseteq> K \<Longrightarrow> di_wf K (implicit_add_all k ks g)"
proof (induction ks arbitrary: g)
  case Nil
  then show ?case by simp
next
  case (Cons a ks)
  then show ?case by (auto intro!: Cons.IH di_wf_di_add_edge)
qed

lemma di_edge_set_implicit_add_all:
  "di_edge_set (implicit_add_all k ks g) = di_edge_set g \<union> {k} \<times> set ks"
  by (induction ks arbitrary: g) (auto simp: di_edge_set_di_add_edge has_edge_iff)

lemma di_wf_implicit_add_all_if:
  "di_wf K g \<Longrightarrow> k \<in> K \<Longrightarrow> set ks \<subseteq> K \<Longrightarrow> di_wf K (if c then implicit_add_all k ks g else g)"
  by (simp add: di_wf_implicit_add_all)

lemma di_wf_implicit_deps_of:
  assumes "di_wf K g" "ao_key ` set objects \<subseteq> K" "ao_key obj \<in> K"
  shows "di_wf K (implicit_deps_of objects obj g)"
proof -
  let ?tables = "map (\<lambda>t. lower (ao_qualified_name t))
                     (filter (\<lambda>t. ao_object_type t = ''TABLE''
                                  \<and> lower (ao_schema_name t) = lower (ao_schema_name obj)) objects)"
  let ?stat = "filter (\<lambda>table_key. sublist (table_name_of table_key) (lower (ao_name obj))) ?tables"
  let ?ext = "map (\<lambda>t. lower (ao_qualified_name t))
                     (filter (\<lambda>t. ao_object_type t = ''EXTERNAL_DATA_SOURCE'') objects)"
  let ?k = "lower (ao_qualified_name obj)"
  let ?g1 = "if ao_object_type obj = ''STATISTICS'' then implicit_add_all ?k ?stat g else g"
  have k: "?k \<in> K" using assms(3) by (simp add: ao_key_def)
  have s: "set ?stat \<subseteq> K" using assms(2) by (auto simp: ao_key_def)
  have e: "set ?ext \<subseteq> K" using assms(2) by (auto simp: ao_key_def)
  have g1: "di_wf K ?g1" by (rule di_wf_implicit_add_all_if[OF assms(1) k s])
  have "di_wf K (if ao_object_type obj = ''EXTERNAL_TABLE'' then implicit_add_all ?k ?ext ?g1 else ?g1)"
    by (rule di_wf_implicit_add_all_if[OF g1 k e])
  then show ?thesis by (simp add: implicit_deps_of_def Let_def)
qed

lemma di_wf_add_implicit_dependencies:
  "di_wf K g \<Longrightarrow> ao_key ` set objects \<subseteq> K \<Longrightarrow> ao_key ` set objs \<subseteq> K \<Longrightarrow>
   di_wf K (add_implicit_dependencies objects objs g)"
proof (induction objs arbitrary: g)
  case Nil
  then show ?case by simp
next
  case (Cons obj objs)
  from Cons.prems have "di_wf K (implicit_deps_of objects obj g)"
    by (intro di_wf_implicit_deps_of) auto
  with Cons.prems show ?case by (auto intro!: Cons.IH)
qed

lemma di_wf_build_graph: "di_wf (ao_key ` set objects) (build_graph objects)"
proof -
  let ?g = "add_nodes objects di_empty"
  have n: "set (di_nodes ?g) = ao_key ` set objects"
    by (simp add: set_di_nodes_add_nodes di_empty_def)
  have "di_edge_set ?g = {}"
    by (simp add: di_edge_set_add_nodes) (simp add: di_edge_set_def di_empty_def)
  with n have w: "di_wf (ao_key ` set objects) ?g" by (simp add: di_wf_def)
  have "di_wf (ao_key ` set objects) (explicit_loop (set (di_nodes ?g)) objects ?g)"
    by (rule di_wf_explicit_loop[OF w]) (simp_all add: n)
  then have "di_wf (ao_key ` set objects)
          (add_implicit_dependencies objects objects (explicit_loop (set (di_nodes ?g)) objects ?g))"
    by (rule di_wf_add_implicit_dependencies) simp_all
  then show ?thesis by (simp add: build_graph_def Let_def)
qed

lemma di_edge_set_implicit_deps_of_mono:
  "di_edge_set g \<subseteq> di_edge_set (implicit_deps_of objects obj g)"
  by (auto simp: implicit_deps_of_def Let_def di_edge_set_implicit_add_all)

lemma di_edge_set_add_implicit_dependencies_mono:
  "di_edge_set g \<subseteq> di_edge_set (add_implicit_dependencies objects objs g)"
proof (induction objs arbitrary: g)
  case Nil
  then show ?case by simp
next
  case (Cons obj objs)
  have "di_edge_set g \<subseteq> di_edge_set (implicit_deps_of objects obj g)"
    by (rule di_edge_set_implicit_deps_of_mono)
  also have "\<dots> \<subseteq> di_edge_set (add_implicit_dependencies objects objs (implicit_deps_of objects obj g))"
    by (rule Cons.IH)
  finally show ?case by simp
qed

lemma implicit_deps_of_external:
  assumes "ao_object_type obj = ''EXTERNAL_TABLE''" "src \<in> set objects"
    "ao_object_type src = ''EXTERNAL_DATA_SOURCE''"
  shows "(ao_key obj, ao_key src) \<in> di_edge_set (implicit_deps_of objects obj g)"
  using assms
  by (auto simp: implicit_deps_of_def Let_def di_edge_set_implicit_add_all ao_key_def)

lemma add_implicit_dependencies_external:
  assumes "obj \<in> set objs" "ao_object_type obj = ''EXTERNAL_TABLE''" "src \<in> set objects"
    "ao_object_type src = ''EXTERNAL_DATA_SOURCE''"
  shows "(ao_key obj, ao_key src) \<in> di_edge_set (add_implicit_dependencies objects objs g)"
  using assms(1)
proof (induction objs arbitrary: g)
  case Nil
  then show ?case by simp
next
  case (Cons o1 objs)
  show ?case
  proof (cases "obj = o1")
    case True
    from implicit_deps_of_external[OF assms(2,3,4)]
    have "(ao_key obj, ao_key src) \<in> di_edge_set (implicit_deps_of objects obj g)" .
    with di_edge_set_add_implicit_dependencies_mono[of "implicit_deps_of objects obj g" objects objs]
    show ?thesis using True by auto
  next
    case False
    with Cons.prems have "obj \<in> set objs" by simp
    from Cons.IH[OF this] show ?thesis by simp
  qed
qed

lemma build_graph_external:
  assumes "obj \<in> set objects" "ao_object_type obj = ''EXTERNAL_TABLE''" "src \<in> set objects"
    "ao_object_type src = ''EXTERNAL_DATA_SOURCE''"
  shows "has_edge (build_graph objects) (ao_key obj) (ao_key src)"
  unfolding has_edge_iff build_graph_def Let_def
  by (rule add_implicit_dependencies_external[OF assms])

lemma depends_on_build_deps_mono: "depends_on g x \<subseteq> depends_on (build_deps q ds g) x"
proof (induction ds arbitrary: g)
  case Nil
  then show ?case by simp
next
  case (Cons d ds)
  show ?case
  proof (cases "strip d = []")
    case True
    with Cons.IH[of g] show ?thesis by simp
  next
    case False
    let ?g = "g\<lparr> nodes := insert (strip d) (nodes g),
               depends_on := (depends_on g)(q := insert (strip d) (depends_on g q)),
               depended_by := (depended_by g)(strip d := insert q (depended_by g (strip d))) \<rparr>"
    have "depends_on g x \<subseteq> depends_on ?g x" by auto
    also have "\<dots> \<subseteq> depends_on (build_deps q ds ?g) x" by (rule Cons.IH)
    finally show ?thesis using False by (simp add: Let_def)
  qed
qed

lemma build_deps_adds:
  "d \<in> set ds \<Longrightarrow> strip d \<noteq> [] \<Longrightarrow> strip d \<in> depends_on (build_deps q ds g) q"
proof (induction ds arbitrary: g)
  case Nil
  then show ?case by simp
next
  case (Cons a ds)
  show ?case
  proof (cases "d = a")
    case True
    let ?g = "g\<lparr> nodes := insert (strip a) (nodes g),
               depends_on := (depends_on g)(q := insert (strip a) (depends_on g q)),
               depended_by := (depended_by g)(strip a := insert q (depended_by g (strip a))) \<rparr>"
    have "strip a \<in> depends_on ?g q" by simp
    with depends_on_build_deps_mono[of ?g q q ds] have "strip a \<in> depends_on (build_deps q ds ?g) q"
      by blast
    with True Cons.prems(2) show ?thesis by (simp add: Let_def)
  next
    case False
    with Cons.prems have "d \<in> set ds" by simp
    from Cons.IH[OF this Cons.prems(2)] show ?thesis by (simp add: Let_def)
  qed
qed

lemma depends_on_build_mono: "depends_on g x \<subseteq> depends_on (build objs g) x"
proof (induction objs arbitrary: g)
  case Nil
  then show ?case by simp
next
  case (Cons obj objs)
  let ?g = "build_deps (qualified_name obj) (dependencies obj)
                   (g\<lparr> nodes := insert (qualified_name obj) (nodes g) \<rparr>)"
  have "depends_on g x \<subseteq> depends_on ?g x"
    using depends_on_build_deps_mono[of "g\<lparr> nodes := insert (qualified_name obj) (nodes g) \<rparr>" x
            "qualified_name obj" "dependencies obj"] by simp
  also have "\<dots> \<subseteq> depends_on (build objs ?g) x" by (rule Cons.IH)
  finally show ?case by simp
qed

lemma build_adds:
  "obj \<in> set objs \<Longrightarrow> d \<in> set (dependencies obj) \<Longrightarrow> strip d \<noteq> [] \<Longrightarrow>
   strip d \<in> depends_on (build objs g) (qualified_name obj)"
proof (induction objs arbitrary: g)
  case Nil
  then show ?case by simp
next
  case (Cons a objs)
  let ?g = "build_deps (qualified_name a) (dependencies a)
                   (g\<lparr> nodes := insert (qualified_name a) (nodes g) \<rparr>)"
  show ?case
  proof (cases "obj = a")
    case True
    from build_deps_adds[OF Cons.prems(2,3)]
    have "strip d \<in> depends_on (build_deps (qualified_name obj) (dependencies obj)
                   (g\<lparr> nodes := insert (qualified_name obj) (nodes g) \<rparr>)) (qualified_name obj)" .
    with True have "strip d \<in> depends_on ?g (qualified_name obj)" by simp
    with depends_on_build_mono[of ?g "qualified_name obj" objs] show ?thesis by auto
  next
    case False
    with Cons.prems have "obj \<in> set objs" by simp
    from Cons.IH[OF this Cons.prems(2,3)] show ?thesis by simp
  qed
qed

lemma new_graph_declared_edge:
  assumes "obj \<in> set objects" "d \<in> set (dependencies obj)" "strip d \<noteq> []"
  shows "strip d \<in> depends_on (new_graph objects) (qualified_name obj)"
proof -
  let ?g = "build objects (empty_graph\<lparr> object_map := fill_object_map objects Map.empty \<rparr>)"
  from build_adds[OF assms] have "strip d \<in> depends_on ?g (qualified_name obj)" .
  with depends_on_implicit_loop_mono[of ?g "qualified_name obj" objects
         "map qualified_name (filter (\<lambda>obj. object_type obj = SCHEMA) objects)" objects]
  show ?thesis unfolding new_graph_def add_implicit_edges_def by blast
qed

lemma di_edge_set_explicit_deps:
  "di_edge_set (explicit_deps all_keys obj deps g)
     = di_edge_set g \<union> {(ao_key obj, resolve_dep obj d) |d. d \<in> set deps \<and> resolve_dep obj d \<in> all_keys}"
proof (induction deps arbitrary: g)
  case Nil
  then show ?case by simp
next
  case (Cons a deps)
  let ?g = "if resolve_dep obj a \<in> all_keys
            then di_add_edge (ao_key obj) (resolve_dep obj a) explicit g else g"
  have step: "explicit_deps all_keys obj (a # deps) g = explicit_deps all_keys obj deps ?g"
    by (simp add: Let_def resolve_dep_def ao_key_def)
  have "di_edge_set ?g = di_edge_set g \<union> {(ao_key obj, resolve_dep obj d) |d. d = a \<and> resolve_dep obj d \<in> all_keys}"
    by (auto simp: di_edge_set_di_add_edge)
  with Cons.IH[of ?g] show ?case unfolding step by auto
qed

lemma di_edge_set_explicit_loop:
  "di_edge_set (explicit_loop all_keys objs g)
     = di_edge_set g \<union> {(ao_key ob, resolve_dep ob d) |ob d.
          ob \<in> set objs \<and> d \<in> set (ao_dependencies ob) \<and> resolve_dep ob d \<in> all_keys}"
proof (induction objs arbitrary: g)
  case Nil
  then show ?case by simp
next
  case (Cons a objs)
  have "di_edge_set (explicit_loop all_keys (a # objs) g)
          = di_edge_set (explicit_deps all_keys a (ao_dependencies a) g)
            \<union> {(ao_key ob, resolve_dep ob d) |ob d.
                 ob \<in> set objs \<and> d \<in> set (ao_dependencies ob) \<and> resolve_dep ob d \<in> all_keys}"
    using Cons.IH[of "explicit_deps all_keys a (ao_dependencies a) g"] by simp
  also have "\<dots> = di_edge_set g
            \<union> {(ao_key a, resolve_dep a d) |d. d \<in> set (ao_dependencies a) \<and> resolve_dep a d \<in> all_keys}
            \<union> {(ao_key ob, resolve_dep ob d) |ob d.
                 ob \<in> set objs \<and> d \<in> set (ao_dependencies ob) \<and> resolve_dep ob d \<in> all_keys}"
    unfolding di_edge_set_explicit_deps ..
  also have "\<dots> = di_edge_set g \<union> {(ao_key ob, resolve_dep ob d) |ob d.
          ob \<in> set (a # objs) \<and> d \<in> set (ao_dependencies ob) \<and> resolve_dep ob d \<in> all_keys}"
    by auto
  finally show ?case .
qed

lemma di_edge_set_implicit_deps_of:
  "di_edge_set (implicit_deps_of objects obj g) = di_edge_set g \<union> implicit_edges_for objects obj"
proof -
  let ?k = "lower (ao_qualified_name obj)"
  let ?tables = "map (\<lambda>t. lower (ao_qualified_name t))
                     (filter (\<lambda>t. ao_object_type t = ''TABLE''
                                  \<and> lower (ao_schema_name t) = lower (ao_schema_name obj)) objects)"
  let ?stat = "filter (\<lambda>table_key. sublist (table_name_of table_key) (lower (ao_name obj))) ?tables"
  let ?ext = "map (\<lambda>t. lower (ao_qualified_name t))
                     (filter (\<lambda>t. ao_object_type t = ''EXTERNAL_DATA_SOURCE'') objects)"
  let ?g1 = "if ao_object_type obj = ''STATISTICS'' then implicit_add_all ?k ?stat g else g"
  let ?g2 = "if ao_object_type obj = ''EXTERNAL_TABLE'' then implicit_add_all ?k ?ext ?g1 else ?g1"
  have eq: "implicit_deps_of objects obj g = ?g2" by (simp add: implicit_deps_of_def Let_def)
  have s: "set ?stat = {ao_key t |t. t \<in> set objects \<and> ao_object_type t = ''TABLE''
                          \<and> lower (ao_schema_name t) = lower (ao_schema_name obj)
                          \<and> sublist (table_name_of (ao_key t)) (lower (ao_name obj))}"
    by (auto simp: ao_key_def)
  have e: "set ?ext = {ao_key s |s. s \<in> set objects \<and> ao_object_type s = ''EXTERNAL_DATA_SOURCE''}"
    by (auto simp: ao_key_def)
  have g1: "di_edge_set ?g1 = di_edge_set g \<union>
              {(ao_key obj, ao_key t) |t. ao_object_type obj = ''STATISTICS'' \<and> t \<in> set objects
                  \<and> ao_object_type t = ''TABLE'' \<and> lower (ao_schema_name t) = lower (ao_schema_name obj)
                  \<and> sublist (table_name_of (ao_key t)) (lower (ao_name obj))}"
  proof (cases "ao_object_type obj = ''STATISTICS''")
    case True
    then have "di_edge_set ?g1 = di_edge_set g \<union> {?k} \<times> set ?stat"
      by (simp add: di_edge_set_implicit_add_all)
    also have "{?k} \<times> set ?stat = {(ao_key obj, ao_key t) |t. ao_object_type obj = ''STATISTICS'' \<and> t \<in> set objects
                  \<and> ao_object_type t = ''TABLE'' \<and> lower (ao_schema_name t) = lower (ao_schema_name obj)
                  \<and> sublist (table_name_of (ao_key t)) (lower (ao_name obj))}"
      unfolding s using True by (auto simp: ao_key_def)
    finally show ?thesis .
  next
    case False
    then show ?thesis by simp
  qed
  have g2: "di_edge_set ?g2 = di_edge_set ?g1 \<union>
              {(ao_key obj, ao_key s) |s. ao_object_type obj = ''EXTERNAL_TABLE'' \<and> s \<in> set objects
                  \<and> ao_object_type s = ''EXTERNAL_DATA_SOURCE''}"
  proof (cases "ao_object_type obj = ''EXTERNAL_TABLE''")
    case True
    then have "di_edge_set ?g2 = di_edge_set ?g1 \<union> {?k} \<times> set ?ext"
      by (simp add: di_edge_set_implicit_add_all)
    also have "{?k} \<times> set ?ext = {(ao_key obj, ao_key s) |s. ao_object_type obj = ''EXTERNAL_TABLE'' \<and> s \<in> set objects
                  \<and> ao_object_type s = ''EXTERNAL_DATA_SOURCE''}"
      unfolding e using True by (auto simp: ao_key_def)
    finally show ?thesis .
  next
    case False
    then show ?thesis by simp
  qed
  show ?thesis unfolding eq g2 g1 implicit_edges_for_def by (simp add: Un_assoc)
qed

lemma di_edge_set_add_implicit_dependencies:
  "di_edge_set (add_implicit_dependencies objects objs g)
     = di_edge_set g \<union> (\<Union>ob \<in> set objs. implicit_edges_for objects ob)"
proof (induction objs arbitrary: g)
  case Nil
  then show ?case by simp
next
  case (Cons a objs)
  have "di_edge_set (add_implicit_dependencies objects (a # objs) g)
          = di_edge_set (implicit_deps_of objects a g) \<union> (\<Union>ob \<in> set objs. implicit_edges_for objects ob)"
    using Cons.IH[of "implicit_deps_of objects a g"] by simp
  also have "\<dots> = di_edge_set g \<union> implicit_edges_for objects a
                     \<union> (\<Union>ob \<in> set objs. implicit_edges_for objects ob)"
    unfolding di_edge_set_implicit_deps_of ..
  also have "\<dots> = di_edge_set g \<union> (\<Union>ob \<in> set (a # objs). implicit_edges_for objects ob)"
    by auto
  finally show ?case .
qed

lemma di_edge_set_build_graph:
  "di_edge_set (build_graph objects)
     = explicit_edges objects \<union> statistics_edges objects \<union> external_source_edges objects"
proof -
  let ?g = "add_nodes objects di_empty"
  have n: "set (di_nodes ?g) = ao_key ` set objects"
    by (simp add: set_di_nodes_add_nodes di_empty_def)
  have e0: "di_edge_set ?g = {}"
    by (simp add: di_edge_set_add_nodes) (simp add: di_edge_set_def di_empty_def)
  have imp: "(\<Union>ob \<in> set objects. implicit_edges_for objects ob)
               = statistics_edges objects \<union> external_source_edges objects"
    unfolding implicit_edges_for_def statistics_edges_def external_source_edges_def by blast
  have "di_edge_set (build_graph objects)
          = di_edge_set (explicit_loop (set (di_nodes ?g)) objects ?g)
            \<union> (\<Union>ob \<in> set objects. implicit_edges_for objects ob)"
    unfolding build_graph_def Let_def di_edge_set_add_implicit_dependencies ..
  also have "di_edge_set (explicit_loop (set (di_nodes ?g)) objects ?g) = explicit_edges objects"
    unfolding di_edge_set_explicit_loop e0 n explicit_edges_def by simp
  finally show ?thesis unfolding imp by (simp add: Un_assoc)
qed

section \<open>Correctness of the Kahn loop\<close>

lemma relax_char:
  "distinct ds \<Longrightarrow> set ds \<subseteq> dom (map_of al) \<Longrightarrow>
   \<exists>al'. relax ds al q = Inr (al', q @ filter (\<lambda>n. map_of al n = Some 1) ds)
        \<and> map_of al' = (\<lambda>n. if n \<in> set ds then map_option (\<lambda>v. v - 1) (map_of al n) else map_of al n)"
proof (induction ds arbitrary: al q)
  case Nil
  then show ?case by simp
next
  case (Cons d ds)
  from Cons.prems obtain v where v: "map_of al d = Some v" by auto
  let ?al = "AList.update d (v - 1) al"
  let ?q = "if v - 1 = 0 then q @ [d] else q"
  have m: "map_of ?al = (map_of al)(d \<mapsto> v - 1)" by (rule update_conv')
  from Cons.prems have dd: "distinct ds" and dn: "d \<notin> set ds" by auto
  from Cons.prems have "set ds \<subseteq> dom (map_of ?al)" by (auto simp: m)
  from Cons.IH[OF dd this, of ?q] obtain al' where
    r: "relax ds ?al ?q = Inr (al', ?q @ filter (\<lambda>n. map_of ?al n = Some 1) ds)" and
    m': "map_of al' = (\<lambda>n. if n \<in> set ds then map_option (\<lambda>v. v - 1) (map_of ?al n) else map_of ?al n)"
    by blast
  have f: "filter (\<lambda>n. map_of ?al n = Some 1) ds = filter (\<lambda>n. map_of al n = Some 1) ds"
    using dn by (intro filter_cong) (auto simp: m)
  have q: "?q @ filter (\<lambda>n. map_of al n = Some 1) ds = q @ filter (\<lambda>n. map_of al n = Some 1) (d # ds)"
    using v by auto
  have "relax (d # ds) al q = Inr (al', q @ filter (\<lambda>n. map_of al n = Some 1) (d # ds))"
    using v r f q by simp
  moreover have "map_of al' = (\<lambda>n. if n \<in> set (d # ds) then map_option (\<lambda>v. v - 1) (map_of al n) else map_of al n)"
    using dn v by (auto simp: m' m fun_eq_iff)
  ultimately show ?case by blast
qed

lemma wf_graph_finite_depends_on: "wf_graph g \<Longrightarrow> finite (depends_on g n)"
  unfolding wf_graph_def by (meson finite_subset subsetI)

lemma wf_graph_finite_depended_by: "wf_graph g \<Longrightarrow> finite (depended_by g n)"
proof -
  assume w: "wf_graph g"
  then have "depended_by g n \<subseteq> nodes g" unfolding wf_graph_def by blast
  with w show ?thesis unfolding wf_graph_def by (meson finite_subset)
qed

lemma ready_mono: "P \<subseteq> Q \<Longrightarrow> ready g P \<subseteq> ready g Q"
  by (auto simp: ready_def)

lemma relax_step:
  assumes w: "wf_graph g" and d: "deg_ok g al P" and vn: "v \<in> nodes g" and vP: "v \<notin> P"
  shows "\<exists>al'. relax (sorted_list_of_set (depended_by g v)) al q
             = Inr (al', q @ filter (\<lambda>n. depends_on g n \<subseteq> insert v P) (sorted_list_of_set (depended_by g v)))
           \<and> deg_ok g al' (insert v P)"
proof -
  let ?ds = "sorted_list_of_set (depended_by g v)"
  have fin: "finite (depended_by g v)" by (rule wf_graph_finite_depended_by[OF w])
  have sds: "set ?ds = depended_by g v" using fin by simp
  have dist: "distinct ?ds" by simp
  have inv: "\<And>a b. a \<in> depended_by g b \<longleftrightarrow> b \<in> depends_on g a"
    using w unfolding wf_graph_def by blast
  have nd: "\<And>a b. b \<in> depends_on g a \<Longrightarrow> a \<in> nodes g"
    using w unfolding wf_graph_def by blast
  have dom: "set ?ds \<subseteq> dom (map_of al)"
    using d nd inv unfolding deg_ok_def sds by (auto simp: dom_def)
  from relax_char[OF dist dom, of q] obtain al' where
    r: "relax ?ds al q = Inr (al', q @ filter (\<lambda>n. map_of al n = Some 1) ?ds)" and
    m': "map_of al' = (\<lambda>n. if n \<in> set ?ds then map_option (\<lambda>v. v - 1) (map_of al n) else map_of al n)"
    by blast
  have card_eq: "card (depends_on g n - insert v P) = card (depends_on g n - P) - 1"
    and card_pos: "card (depends_on g n - P) > 0"
    if "n \<in> depended_by g v" for n
  proof -
    from that have vin: "v \<in> depends_on g n - P" using inv vP by simp
    have fn: "finite (depends_on g n - P)" using wf_graph_finite_depends_on[OF w] by simp
    have "depends_on g n - insert v P = (depends_on g n - P) - {v}" by auto
    then show "card (depends_on g n - insert v P) = card (depends_on g n - P) - 1"
      using vin fn by (simp add: card_Diff_singleton)
    show "card (depends_on g n - P) > 0" using vin fn by (auto simp: card_gt_0_iff)
  qed
  have same: "depends_on g n - insert v P = depends_on g n - P" if "n \<notin> depended_by g v" for n
    using that inv by auto
  have f: "filter (\<lambda>n. map_of al n = Some 1) ?ds = filter (\<lambda>n. depends_on g n \<subseteq> insert v P) ?ds"
  proof (rule filter_cong[OF refl])
    fix n assume "n \<in> set ?ds"
    then have nin: "n \<in> depended_by g v" using sds by simp
    then have nn: "n \<in> nodes g" using inv nd by blast
    have fn: "finite (depends_on g n - insert v P)" using wf_graph_finite_depends_on[OF w] by simp
    have "map_of al n = Some 1 \<longleftrightarrow> card (depends_on g n - P) = 1"
      using d nn unfolding deg_ok_def by simp
    also have "\<dots> \<longleftrightarrow> card (depends_on g n - insert v P) = 0"
      using card_eq[OF nin] card_pos[OF nin] by linarith
    also have "\<dots> \<longleftrightarrow> depends_on g n \<subseteq> insert v P"
      using fn by auto
    finally show "(map_of al n = Some 1) = (depends_on g n \<subseteq> insert v P)" .
  qed
  have "deg_ok g al' (insert v P)"
    unfolding deg_ok_def
  proof
    fix n
    show "map_of al' n = (if n \<in> nodes g then Some (int (card (depends_on g n - insert v P))) else None)"
    proof (cases "n \<in> depended_by g v")
      case True
      then have nn: "n \<in> nodes g" using inv nd by blast
      have "map_of al' n = map_option (\<lambda>v. v - 1) (map_of al n)" using True sds m' by simp
      also have "\<dots> = Some (int (card (depends_on g n - P)) - 1)"
        using d nn unfolding deg_ok_def by simp
      also have "int (card (depends_on g n - P)) - 1 = int (card (depends_on g n - insert v P))"
        using card_eq[OF True] card_pos[OF True] by linarith
      finally show ?thesis using nn by simp
    next
      case False
      then have "map_of al' n = map_of al n" using sds m' by simp
      then show ?thesis using d same[OF False] unfolding deg_ok_def by simp
    qed
  qed
  with r f show ?thesis by auto
qed

lemma new_ready:
  assumes w: "wf_graph g" and vP: "v \<notin> P"
  shows "set (filter (\<lambda>n. depends_on g n \<subseteq> insert v P) (sorted_list_of_set (depended_by g v)))
           = ready g (insert v P) - ready g P"
proof -
  have fin: "finite (depended_by g v)" by (rule wf_graph_finite_depended_by[OF w])
  have inv: "\<And>a b. a \<in> depended_by g b \<longleftrightarrow> b \<in> depends_on g a"
    using w unfolding wf_graph_def by blast
  have nd: "\<And>a b. b \<in> depends_on g a \<Longrightarrow> a \<in> nodes g"
    using w unfolding wf_graph_def by blast
  show ?thesis using fin inv nd vP by (auto simp: ready_def)
qed

lemma kahn_inv_step:
  assumes w: "wf_graph g" and i: "kahn_inv g al (v # queue) result"
  shows "\<exists>al' queue'. relax (sorted_list_of_set (depended_by g v)) al queue = Inr (al', queue')
           \<and> kahn_inv g al' queue' (result @ [v])"
proof -
  let ?P = "set result"
  let ?new = "filter (\<lambda>n. depends_on g n \<subseteq> insert v ?P) (sorted_list_of_set (depended_by g v))"
  from i have d: "deg_ok g al ?P" and dist: "distinct (result @ v # queue)"
    and rd: "set (result @ v # queue) = ready g ?P"
    and ord: "\<forall>i<length result. depends_on g (result ! i) \<subseteq> set (take i result)"
    unfolding kahn_inv_def by auto
  from dist have vP: "v \<notin> ?P" by auto
  from rd have vr: "v \<in> ready g ?P" by auto
  then have vn: "v \<in> nodes g" and vd: "depends_on g v \<subseteq> ?P" by (auto simp: ready_def)
  from relax_step[OF w d vn vP, of queue] obtain al' where
    r: "relax (sorted_list_of_set (depended_by g v)) al queue = Inr (al', queue @ ?new)" and
    d': "deg_ok g al' (insert v ?P)" by blast
  have ns: "set ?new = ready g (insert v ?P) - ready g ?P" by (rule new_ready[OF w vP])
  have dn: "distinct ?new" by simp
  have mono: "ready g ?P \<subseteq> ready g (insert v ?P)" by (rule ready_mono) auto
  have disj: "set ?new \<inter> set (result @ v # queue) = {}" using ns rd by auto
  have "deg_ok g al' (set (result @ [v]))" using d' by simp
  moreover have "distinct ((result @ [v]) @ queue @ ?new)" using dist dn disj by auto
  moreover have "set ((result @ [v]) @ queue @ ?new) = ready g (set (result @ [v]))"
  proof -
    have "set ((result @ [v]) @ queue @ ?new) = set (result @ v # queue) \<union> set ?new" by auto
    also have "\<dots> = ready g ?P \<union> (ready g (insert v ?P) - ready g ?P)" using rd ns by simp
    also have "\<dots> = ready g (insert v ?P)" using mono by auto
    finally show ?thesis by simp
  qed
  moreover have "\<forall>i<length (result @ [v]). depends_on g ((result @ [v]) ! i) \<subseteq> set (take i (result @ [v]))"
  proof (intro allI impI)
    fix i assume "i < length (result @ [v])"
    then consider "i < length result" | "i = length result" by fastforce
    then show "depends_on g ((result @ [v]) ! i) \<subseteq> set (take i (result @ [v]))"
    proof cases
      case 1
      then show ?thesis using ord by (simp add: nth_append)
    next
      case 2
      then show ?thesis using vd by simp
    qed
  qed
  ultimately have "kahn_inv g al' (queue @ ?new) (result @ [v])" unfolding kahn_inv_def by blast
  with r show ?thesis by blast
qed

lemma kahn_loop_correct:
  "wf_graph g \<Longrightarrow> kahn_inv g al queue result \<Longrightarrow>
   \<exists>r al'. kahn_loop g al queue result = Inr r \<and> kahn_inv g al' [] r"
proof (induction g al queue result rule: kahn_loop.induct)
  case (1 g in_degree result)
  then show ?case by auto
next
  case (2 g in_degree node queue result)
  from kahn_inv_step[OF "2.prems"] obtain al' queue' where
    r: "relax (sorted_list_of_set (depended_by g node)) in_degree queue = Inr (al', queue')" and
    i: "kahn_inv g al' queue' (result @ [node])" by blast
  from "2.IH"[OF r refl "2.prems"(1) i] obtain res al'' where
    "kahn_loop g al' queue' (result @ [node]) = Inr res" "kahn_inv g al'' [] res" by blast
  with r show ?case by auto
qed

lemma map_of_init_in_degree:
  "wf_graph g \<Longrightarrow> deg_ok g (init_in_degree g) {}"
proof -
  assume w: "wf_graph g"
  then have fin: "finite (nodes g)" unfolding wf_graph_def by simp
  have "map_of (map (\<lambda>node. (node, int (card (depends_on g node)))) xs) n
          = (if n \<in> set xs then Some (int (card (depends_on g n))) else None)" for xs n
    by (induction xs) auto
  then show ?thesis using fin by (simp add: deg_ok_def init_in_degree_def)
qed

lemma initial_queue:
  assumes w: "wf_graph g"
  shows "set (filter (\<lambda>node. map_of (init_in_degree g) node = Some 0) (sorted_list_of_set (nodes g)))
           = ready g {}"
    and "distinct (filter (\<lambda>node. map_of (init_in_degree g) node = Some 0) (sorted_list_of_set (nodes g)))"
proof -
  from w have fin: "finite (nodes g)" unfolding wf_graph_def by simp
  have d: "deg_ok g (init_in_degree g) {}" by (rule map_of_init_in_degree[OF w])
  have "map_of (init_in_degree g) n = Some 0 \<longleftrightarrow> depends_on g n = {}" if "n \<in> nodes g" for n
    using d that wf_graph_finite_depends_on[OF w, of n] unfolding deg_ok_def by simp
  then show "set (filter (\<lambda>node. map_of (init_in_degree g) node = Some 0) (sorted_list_of_set (nodes g)))
           = ready g {}"
    using fin by (auto simp: ready_def)
  show "distinct (filter (\<lambda>node. map_of (init_in_degree g) node = Some 0) (sorted_list_of_set (nodes g)))"
    by simp
qed

lemma kahn_inv_initial:
  "wf_graph g \<Longrightarrow>
   kahn_inv g (init_in_degree g)
     (filter (\<lambda>node. map_of (init_in_degree g) node = Some 0) (sorted_list_of_set (nodes g))) []"
  unfolding kahn_inv_def
  using map_of_init_in_degree[of g] initial_queue[of g] by simp

lemma ready_fixpoint:
  assumes w: "wf_graph g" and a: "acyclic (dep_rel g)" and PN: "P \<subseteq> nodes g" and f: "ready g P \<subseteq> P"
  shows "P = nodes g"
proof (rule ccontr)
  assume "P \<noteq> nodes g"
  with PN obtain x where x: "x \<in> nodes g - P" by auto
  have sub: "dep_rel g \<subseteq> nodes g \<times> nodes g" using w unfolding wf_graph_def dep_rel_def by auto
  have "finite (nodes g \<times> nodes g)" using w unfolding wf_graph_def by simp
  then have "finite (dep_rel g)" using sub by (rule rev_finite_subset)
  then have "finite ((dep_rel g)\<inverse>)" by simp
  moreover have "acyclic ((dep_rel g)\<inverse>)" using a by (simp add: acyclic_converse)
  ultimately have "wf ((dep_rel g)\<inverse>)" by (rule finite_acyclic_wf)
  from wfE_min[OF this x] obtain z where z: "z \<in> nodes g - P"
    and m: "\<And>y. (y, z) \<in> (dep_rel g)\<inverse> \<Longrightarrow> y \<notin> nodes g - P" by blast
  have "depends_on g z \<subseteq> P"
  proof
    fix y assume y: "y \<in> depends_on g z"
    then have "(y, z) \<in> (dep_rel g)\<inverse>" by (simp add: dep_rel_def)
    from m[OF this] have "y \<notin> nodes g - P" .
    moreover from y have "y \<in> nodes g" using w unfolding wf_graph_def by blast
    ultimately show "y \<in> P" by simp
  qed
  with z have "z \<in> ready g P" by (simp add: ready_def)
  with f z show False by auto
qed

lemma length_takeWhile_nth:
  "distinct r \<Longrightarrow> i < length r \<Longrightarrow> length (takeWhile (\<lambda>x. x \<noteq> r ! i) r) = i"
proof (induction r arbitrary: i)
  case Nil
  then show ?case by simp
next
  case (Cons a r)
  show ?case
  proof (cases i)
    case 0
    then show ?thesis by simp
  next
    case (Suc j)
    with Cons.prems have j: "j < length r" and "r ! j \<in> set r" by auto
    with Cons.prems have "a \<noteq> r ! j" by auto
    with Cons.IH[OF _ j] Cons.prems Suc show ?thesis by simp
  qed
qed

lemma ordered_acyclic:
  assumes sub: "nodes g \<subseteq> set r" and w: "wf_graph g"
    and ord: "\<forall>i<length r. depends_on g (r ! i) \<subseteq> set (take i r)" and dist: "distinct r"
  shows "acyclic (dep_rel g)"
proof -
  define f where "f n = length (takeWhile (\<lambda>x. x \<noteq> n) r)" for n
  have idx: "f (r ! i) = i" if "i < length r" for i
    unfolding f_def using that dist by (simp add: length_takeWhile_nth)
  have "dep_rel g \<subseteq> (inv_image less_than f)\<inverse>"
  proof
    fix e assume e: "e \<in> dep_rel g"
    obtain a b where ab: "e = (a, b)" by (cases e)
    with e have b: "b \<in> depends_on g a" by (simp add: dep_rel_def)
    then have "a \<in> nodes g" using w unfolding wf_graph_def by blast
    with sub have "a \<in> set r" by blast
    then obtain i where i: "i < length r" "r ! i = a" unfolding in_set_conv_nth by blast
    with ord b have "b \<in> set (take i r)" by blast
    then obtain j where "j < length (take i r)" "take i r ! j = b"
      unfolding in_set_conv_nth by blast
    with i(1) have j: "j < i" "r ! j = b" by auto
    from j i have "f b = j" "f a = i" using idx by auto
    with j ab show "e \<in> (inv_image less_than f)\<inverse>" by simp
  qed
  moreover have "acyclic ((inv_image less_than f)\<inverse>)"
  proof -
    have "acyclic (inv_image less_than f)" by (rule wf_acyclic) simp
    then show ?thesis by (simp only: acyclic_converse)
  qed
  ultimately show ?thesis by (rule acyclic_subset[rotated])
qed

lemma topological_sort_wf:
  assumes w: "wf_graph g"
  shows "\<exists>r. distinct r \<and> set r \<subseteq> nodes g \<and> ready g (set r) = set r
            \<and> (\<forall>i<length r. depends_on g (r ! i) \<subseteq> set (take i r))
            \<and> topological_sort g =
                (if set r = nodes g then Inr r
                 else Inl (ValueError (take 10 (sorted_list_of_set (nodes g - set r)))))"
proof -
  let ?q = "filter (\<lambda>node. map_of (init_in_degree g) node = Some 0) (sorted_list_of_set (nodes g))"
  from kahn_loop_correct[OF w kahn_inv_initial[OF w]] obtain r al' where
    k: "kahn_loop g (init_in_degree g) ?q [] = Inr r" and i: "kahn_inv g al' [] r" by blast
  from i have dist: "distinct r" and rd: "set r = ready g (set r)"
    and ord: "\<forall>i<length r. depends_on g (r ! i) \<subseteq> set (take i r)"
    unfolding kahn_inv_def by auto
  from rd have sub: "set r \<subseteq> nodes g" by (auto simp: ready_def)
  from w have fin: "finite (nodes g)" unfolding wf_graph_def by simp
  have len: "length r = card (set r)" using dist by (simp add: distinct_card)
  have "length r < card (nodes g) \<longleftrightarrow> set r \<noteq> nodes g"
  proof
    assume "length r < card (nodes g)"
    then show "set r \<noteq> nodes g" using len by auto
  next
    assume "set r \<noteq> nodes g"
    with sub have "set r \<subset> nodes g" by blast
    from psubset_card_mono[OF fin this] len show "length r < card (nodes g)" by simp
  qed
  then have "topological_sort g =
                (if set r = nodes g then Inr r
                 else Inl (ValueError (take 10 (sorted_list_of_set (nodes g - set r)))))"
    using k by (simp add: topological_sort_def Let_def)
  with dist sub rd ord show ?thesis by metis
qed

section \<open>Correctness of the layer decomposition\<close>

lemma relax_step_new:
  assumes w: "wf_graph g" and d: "deg_ok g al P" and vn: "v \<in> nodes g" and vP: "v \<notin> P"
  shows "\<exists>al' new. relax (sorted_list_of_set (depended_by g v)) al q = Inr (al', q @ new)
           \<and> deg_ok g al' (insert v P) \<and> distinct new
           \<and> set new = ready g (insert v P) - ready g P"
proof -
  let ?new = "filter (\<lambda>n. depends_on g n \<subseteq> insert v P) (sorted_list_of_set (depended_by g v))"
  from relax_step[OF w d vn vP, of q] obtain al' where
    "relax (sorted_list_of_set (depended_by g v)) al q = Inr (al', q @ ?new)"
    "deg_ok g al' (insert v P)" by blast
  moreover have "distinct ?new" by simp
  moreover have "set ?new = ready g (insert v P) - ready g P" by (rule new_ready[OF w vP])
  ultimately show ?thesis by blast
qed

lemma relax_all_step:
  assumes w: "wf_graph g"
  shows "deg_ok g al P \<Longrightarrow> distinct cur \<Longrightarrow> set cur \<subseteq> nodes g \<Longrightarrow> set cur \<inter> P = {} \<Longrightarrow>
         \<exists>al' new. relax_all g cur al q = Inr (al', q @ new) \<and> deg_ok g al' (P \<union> set cur)
            \<and> distinct new \<and> set new = ready g (P \<union> set cur) - ready g P"
proof (induction cur arbitrary: al q P)
  case Nil
  then show ?case by auto
next
  case (Cons c cur)
  from Cons.prems have cn: "c \<in> nodes g" and cP: "c \<notin> P" by auto
  from relax_step_new[OF w Cons.prems(1) cn cP, of q] obtain al1 new1 where
    r: "relax (sorted_list_of_set (depended_by g c)) al q = Inr (al1, q @ new1)" and
    d1: "deg_ok g al1 (insert c P)" and dn1: "distinct new1" and
    n1: "set new1 = ready g (insert c P) - ready g P" by blast
  from Cons.prems have p2: "distinct cur" "set cur \<subseteq> nodes g" "set cur \<inter> insert c P = {}" by auto
  from Cons.IH[OF d1 p2, of "q @ new1"] obtain al' new2 where
    ra: "relax_all g cur al1 (q @ new1) = Inr (al', (q @ new1) @ new2)" and
    d': "deg_ok g al' (insert c P \<union> set cur)" and dn2: "distinct new2" and
    n2: "set new2 = ready g (insert c P \<union> set cur) - ready g (insert c P)" by blast
  have m1: "ready g P \<subseteq> ready g (insert c P)" by (rule ready_mono) auto
  have m2: "ready g (insert c P) \<subseteq> ready g (insert c P \<union> set cur)" by (rule ready_mono) auto
  have "relax_all g (c # cur) al q = Inr (al', q @ (new1 @ new2))" using r ra by simp
  moreover have "deg_ok g al' (P \<union> set (c # cur))" using d' by simp
  moreover have "distinct (new1 @ new2)" using dn1 dn2 n1 n2 by auto
  moreover have "set (new1 @ new2) = ready g (P \<union> set (c # cur)) - ready g P"
  proof -
    have "P \<union> set (c # cur) = insert c P \<union> set cur" by auto
    then show ?thesis using n1 n2 m1 m2 by auto
  qed
  ultimately show ?case by blast
qed

lemma layered_append:
  assumes "layered g layers" "\<forall>n \<in> set new. depends_on g n \<subseteq> set (concat layers)"
  shows "layered g (layers @ [new])"
  unfolding layered_def
proof (intro allI impI ballI)
  fix k n assume k: "k < length (layers @ [new])" and n: "n \<in> set ((layers @ [new]) ! k)"
  from k consider "k < length layers" | "k = length layers" by fastforce
  then show "depends_on g n \<subseteq> set (concat (take k (layers @ [new])))"
  proof cases
    case 1
    with n assms(1) show ?thesis by (simp add: layered_def nth_append)
  next
    case 2
    with n assms(2) show ?thesis by simp
  qed
qed

lemma sort_eq_Nil: "sort xs = [] \<longleftrightarrow> xs = []"
proof
  assume "sort xs = []"
  then have "length (sort xs) = 0" by simp
  then show "xs = []" by simp
qed simp

lemma layers_inv_step:
  assumes w: "wf_graph g" and i: "layers_inv g al current layers"
  shows "\<exists>al' next. relax_all g current al [] = Inr (al', next)
           \<and> layers_inv g al' next (if next \<noteq> [] then layers @ [sort next] else layers)"
proof -
  define L where "L = set (concat layers)"
  define P where "P = L - set current"
  from i have d: "deg_ok g al P" and dist: "distinct (concat layers)"
    and rd: "L = ready g P" and sub: "set current \<subseteq> L" and dc: "distinct current"
    and lay: "layered g layers" and ne: "[] \<notin> set layers"
    unfolding layers_inv_def L_def P_def by blast+
  have cn: "set current \<subseteq> nodes g" using sub rd unfolding ready_def by blast
  have disj: "set current \<inter> P = {}" unfolding P_def by blast
  from relax_all_step[OF w d dc cn disj, of "[]"] obtain al' new where
    r: "relax_all g current al [] = Inr (al', new)" and
    d': "deg_ok g al' (P \<union> set current)" and dn: "distinct new" and
    ns: "set new = ready g (P \<union> set current) - ready g P" by auto
  have PL: "P \<union> set current = L" using sub unfolding P_def by blast
  define layers' where "layers' = (if new \<noteq> [] then layers @ [sort new] else layers)"
  have cat: "concat layers' = concat layers @ sort new" unfolding layers'_def by simp
  have setcat: "set (concat layers') = L \<union> set new" unfolding cat L_def by simp
  have nL: "set new = ready g L - L" using ns unfolding PL rd[symmetric] .
  have "ready g P \<subseteq> ready g L" by (rule ready_mono) (simp add: P_def)
  then have mono: "L \<subseteq> ready g L" using rd by simp
  have P': "set (concat layers') - set new = L" unfolding setcat using nL by blast
  have c1: "deg_ok g al' (set (concat layers') - set new)" unfolding P' using d' PL by simp
  have "set (concat layers) \<inter> set (sort new) = {}" using nL unfolding L_def by auto
  then have c2: "distinct (concat layers')" unfolding cat using dist dn by simp
  have P'': "L \<union> set new - set new = L" using nL by blast
  have "L \<union> set new = ready g L" using nL mono by blast
  then have c3: "set (concat layers') = ready g (set (concat layers') - set new)"
    unfolding setcat P'' .
  have c4: "set new \<subseteq> set (concat layers')" unfolding setcat by blast
  have c5: "layered g layers'"
  proof (cases "new = []")
    case True
    with lay show ?thesis unfolding layers'_def by simp
  next
    case False
    have "\<forall>n \<in> set (sort new). depends_on g n \<subseteq> set (concat layers)"
      using nL unfolding L_def ready_def by auto
    from layered_append[OF lay this] False show ?thesis unfolding layers'_def by simp
  qed
  have "sort new \<noteq> []" if "new \<noteq> []" using that by (simp add: sort_eq_Nil)
  then have c6: "[] \<notin> set layers'" using ne unfolding layers'_def by auto
  from c1 c2 c3 c4 dn c5 c6 have "layers_inv g al' new layers'" unfolding layers_inv_def by blast
  with r show ?thesis unfolding layers'_def by blast
qed

lemma layers_loop_correct:
  "wf_graph g \<Longrightarrow> layers_inv g al current layers \<Longrightarrow>
   \<exists>ls al'. layers_loop g al current layers = Inr ls \<and> layers_inv g al' [] ls
       \<and> take (length layers) ls = layers"
proof (induction g al current layers rule: layers_loop.induct)
  case (1 g in_degree current layers)
  show ?case
  proof (cases "current = []")
    case True
    then have "layers_loop g in_degree current layers = Inr layers"
      by (subst layers_loop.simps) simp
    with "1.prems" True show ?thesis by auto
  next
    case False
    from layers_inv_step[OF "1.prems"] obtain al' new where
      r: "relax_all g current in_degree [] = Inr (al', new)" and
      i: "layers_inv g al' new (if new \<noteq> [] then layers @ [sort new] else layers)" by blast
    from "1.IH"[OF False r refl "1.prems"(1) i] obtain ls al'' where
      l: "layers_loop g al' new (if new \<noteq> [] then layers @ [sort new] else layers) = Inr ls"
      and i': "layers_inv g al'' [] ls"
      and t: "take (length (if new \<noteq> [] then layers @ [sort new] else layers)) ls
                = (if new \<noteq> [] then layers @ [sort new] else layers)" by blast
    have "layers_loop g in_degree current layers = Inr ls"
      using False r l by (subst layers_loop.simps) simp
    moreover have "take (length layers) ls = layers"
    proof (cases "new = []")
      case True
      with t show ?thesis by simp
    next
      case False
      with t have "take (Suc (length layers)) ls = layers @ [sort new]" by simp
      then have "take (length layers) (take (Suc (length layers)) ls) = take (length layers) (layers @ [sort new])"
        by simp
      then show ?thesis by (simp add: min_def)
    qed
    ultimately show ?thesis using i' by blast
  qed
qed

lemma get_layers_wf:
  assumes w: "wf_graph g"
  shows "\<exists>ls. get_layers g = Inr ls \<and> distinct (concat ls) \<and> set (concat ls) \<subseteq> nodes g
           \<and> ready g (set (concat ls)) = set (concat ls) \<and> layered g ls
           \<and> (if ready g {} = {} then ls = [] else ls \<noteq> [] \<and> set (ls ! 0) = ready g {})"
proof -
  define c where "c = filter (\<lambda>node. map_of (init_in_degree g) node = Some 0) (sorted_list_of_set (nodes g))"
  define l0 where "l0 = (if c \<noteq> [] then [sort c] else [])"
  have sc: "set c = ready g {}" and dc: "distinct c"
    unfolding c_def using initial_queue[OF w] by blast+
  have cat: "concat l0 = sort c" unfolding l0_def by simp
  have lay0: "layered g l0"
    unfolding layered_def
  proof (intro allI impI ballI)
    fix k n assume k: "k < length l0" and n: "n \<in> set (l0 ! k)"
    from k have k0: "k = 0" and cne: "c \<noteq> []" unfolding l0_def by (simp_all split: if_splits)
    with n have "n \<in> set c" unfolding l0_def by simp
    with sc have "depends_on g n \<subseteq> {}" unfolding ready_def by blast
    then show "depends_on g n \<subseteq> set (concat (take k l0))" by blast
  qed
  have ne0: "[] \<notin> set l0" unfolding l0_def using sort_eq_Nil[of c] by auto
  have d0: "deg_ok g (init_in_degree g) (set (sort c) - set c)"
    using map_of_init_in_degree[OF w] by simp
  have r0: "set (sort c) = ready g (set (sort c) - set c)" using sc by simp
  have "layers_inv g (init_in_degree g) c l0"
    unfolding layers_inv_def cat
    by (intro conjI d0 r0 lay0 ne0) (simp_all add: dc)
  from layers_loop_correct[OF w this] obtain ls al' where
    l: "layers_loop g (init_in_degree g) c l0 = Inr ls" and i: "layers_inv g al' [] ls"
    and t: "take (length l0) ls = l0" by blast
  have gl: "get_layers g = Inr ls"
    unfolding get_layers_def Let_def using l unfolding c_def l0_def .
  from i have dist: "distinct (concat ls)" unfolding layers_inv_def by blast
  from i have "set (concat ls) = ready g (set (concat ls) - set [])"
    unfolding layers_inv_def by blast
  then have rd: "set (concat ls) = ready g (set (concat ls))"
    unfolding list.set Diff_empty .
  from i have lay: "layered g ls" unfolding layers_inv_def by blast
  from i have ne: "[] \<notin> set ls" unfolding layers_inv_def by blast
  from rd have sub: "set (concat ls) \<subseteq> nodes g" unfolding ready_def by blast
  have first: "if ready g {} = {} then ls = [] else ls \<noteq> [] \<and> set (ls ! 0) = ready g {}"
  proof (cases "ready g {} = {}")
    case True
    have "ls = []"
    proof (rule ccontr)
      assume "ls \<noteq> []"
      then obtain l1 rest where ls: "ls = l1 # rest" by (cases ls) auto
      with ne have "l1 \<noteq> []" by auto
      then obtain n where n: "n \<in> set l1" by (cases l1) auto
      have "0 < length ls" using ls by simp
      with lay have "\<forall>n \<in> set (ls ! 0). depends_on g n \<subseteq> set (concat (take 0 ls))"
        unfolding layered_def by blast
      with n ls have "depends_on g n \<subseteq> {}" by simp
      moreover from n ls sub have "n \<in> nodes g" by auto
      ultimately have "n \<in> ready g {}" unfolding ready_def by simp
      with True show False by simp
    qed
    with True show ?thesis by simp
  next
    case False
    then have cne: "c \<noteq> []" using sc by auto
    with t have "take 1 ls = [sort c]" unfolding l0_def by simp
    then obtain rest where "ls = sort c # rest" by (cases ls) auto
    then have "ls \<noteq> []" "set (ls ! 0) = set c" by simp_all
    with False sc show ?thesis by simp
  qed
  show ?thesis
    by (rule exI[of _ ls]) (intro conjI gl dist sub rd[symmetric] lay first)
qed

lemma dom_fold_upd: "dom (fold (\<lambda>node m. m(node \<mapsto> v)) xs m) = dom m \<union> set xs"
  by (induction xs arbitrary: m) auto

lemma dom_node_to_layer_loop: "dom (node_to_layer_loop ls i m) = dom m \<union> set (concat ls)"
  by (induction ls arbitrary: i m) (auto simp: dom_fold_upd)

lemma layer_key_notin: "n \<notin> set (concat ls) \<Longrightarrow> layer_key ls n = 999"
proof -
  assume "n \<notin> set (concat ls)"
  then have "n \<notin> dom (node_to_layer ls)"
    unfolding node_to_layer_def dom_node_to_layer_loop by simp
  then show ?thesis unfolding layer_key_def by (auto simp: dom_def)
qed

lemma find_layer_notin: "n \<notin> set (concat ls) \<Longrightarrow> find_layer n ls i = -1"
  by (induction ls arbitrary: i) auto

lemma find_layer_first:
  "n \<in> set (concat ls) \<Longrightarrow>
   \<exists>k<length ls. n \<in> set (ls ! k) \<and> (\<forall>j<k. n \<notin> set (ls ! j)) \<and> find_layer n ls i = i + int k"
proof (induction ls arbitrary: i)
  case Nil
  then show ?case by simp
next
  case (Cons l ls)
  show ?case
  proof (cases "n \<in> set l")
    case True
    then have "0 < length (l # ls) \<and> n \<in> set ((l # ls) ! 0) \<and> (\<forall>j<0. n \<notin> set ((l # ls) ! j))
                \<and> find_layer n (l # ls) i = i + int 0" by simp
    then show ?thesis by blast
  next
    case False
    with Cons.prems have "n \<in> set (concat ls)" by simp
    from Cons.IH[OF this, of "i + 1"] obtain k where
      k: "k < length ls" "n \<in> set (ls ! k)" "\<forall>j<k. n \<notin> set (ls ! j)"
         "find_layer n ls (i + 1) = i + 1 + int k" by blast
    have "\<forall>j<Suc k. n \<notin> set ((l # ls) ! j)"
    proof (intro allI impI)
      fix j assume "j < Suc k"
      then show "n \<notin> set ((l # ls) ! j)" using False k(3) by (cases j) auto
    qed
    with k False have "Suc k < length (l # ls) \<and> n \<in> set ((l # ls) ! Suc k)
        \<and> (\<forall>j<Suc k. n \<notin> set ((l # ls) ! j)) \<and> find_layer n (l # ls) i = i + int (Suc k)"
      by simp
    then show ?thesis by blast
  qed
qed

lemma in_concat_take:
  "y \<in> set (concat (take k ls)) \<Longrightarrow> \<exists>j<k. j < length ls \<and> y \<in> set (ls ! j)"
proof -
  assume "y \<in> set (concat (take k ls))"
  then obtain l where l: "l \<in> set (take k ls)" "y \<in> set l" by auto
  then obtain j where "j < length (take k ls)" "take k ls ! j = l"
    unfolding in_set_conv_nth by blast
  with l(2) have "j < k \<and> j < length ls \<and> y \<in> set (ls ! j)" by auto
  then show ?thesis by blast
qed

lemma in_concat_nth: "j < length ls \<Longrightarrow> y \<in> set (ls ! j) \<Longrightarrow> y \<in> set (concat ls)"
  by (metis concat_conv_foldr nth_mem set_concat UN_I concat.simps)

lemma layer_edge:
  assumes lay: "layered g ls" and x: "x \<in> set (concat ls)" and y: "y \<in> depends_on g x"
  shows "y \<in> set (concat ls) \<and> 0 \<le> find_layer y ls 0 \<and> find_layer y ls 0 < find_layer x ls 0"
proof -
  from find_layer_first[OF x, of 0] obtain kx where
    kx: "kx < length ls" "x \<in> set (ls ! kx)" "find_layer x ls 0 = int kx" by auto
  from lay kx(1,2) have "depends_on g x \<subseteq> set (concat (take kx ls))"
    unfolding layered_def by blast
  with y have "y \<in> set (concat (take kx ls))" by blast
  from in_concat_take[OF this] obtain j where j: "j < kx" "j < length ls" "y \<in> set (ls ! j)"
    by blast
  from in_concat_nth[OF j(2,3)] have yin: "y \<in> set (concat ls)" .
  from find_layer_first[OF yin, of 0] obtain ky where
    ky: "ky < length ls" "\<forall>j<ky. y \<notin> set (ls ! j)" "find_layer y ls 0 = int ky" by auto
  from ky(2) j(3) have "\<not> j < ky" by blast
  with j(1) have "ky < kx" by simp
  with yin kx(3) ky(3) show ?thesis by simp
qed

lemma layer_path:
  assumes lay: "layered g ls"
  shows "(x, y) \<in> (dep_rel g)\<^sup>+ \<Longrightarrow> x \<in> set (concat ls) \<Longrightarrow>
         y \<in> set (concat ls) \<and> find_layer y ls 0 < find_layer x ls 0"
proof (induction rule: trancl_induct)
  case (base y)
  then have "y \<in> depends_on g x" by (simp add: dep_rel_def)
  from layer_edge[OF lay base.prems this] show ?case by simp
next
  case (step y z)
  from step.IH[OF step.prems] have y: "y \<in> set (concat ls)"
    and lt: "find_layer y ls 0 < find_layer x ls 0" by simp_all
  from step.hyps(2) have "z \<in> depends_on g y" by (simp add: dep_rel_def)
  from layer_edge[OF lay y this] lt show ?case by simp
qed

lemma cycle_not_layered:
  "layered g ls \<Longrightarrow> (n, n) \<in> (dep_rel g)\<^sup>+ \<Longrightarrow> n \<notin> set (concat ls)"
  using layer_path[of g ls n n] by auto

lemma layers_cover_iff_acyclic:
  assumes w: "wf_graph g" and lay: "layered g ls" and sub: "set (concat ls) \<subseteq> nodes g"
    and fp: "ready g (set (concat ls)) = set (concat ls)"
  shows "set (concat ls) = nodes g \<longleftrightarrow> acyclic (dep_rel g)"
proof
  assume all: "set (concat ls) = nodes g"
  show "acyclic (dep_rel g)"
    unfolding acyclic_def
  proof (intro allI notI)
    fix x assume c: "(x, x) \<in> (dep_rel g)\<^sup>+"
    then obtain y where "(x, y) \<in> dep_rel g" by (meson tranclD)
    then have "x \<in> nodes g" using w unfolding dep_rel_def wf_graph_def by blast
    with all have "x \<in> set (concat ls)" by simp
    with cycle_not_layered[OF lay c] show False by simp
  qed
next
  assume a: "acyclic (dep_rel g)"
  from fp have "ready g (set (concat ls)) \<subseteq> set (concat ls)" by simp
  from ready_fixpoint[OF w a sub this] show "set (concat ls) = nodes g" .
qed

lemma get_node_layer_eq: "get_layers g = Inr ls \<Longrightarrow> get_node_layer g n = Inr (find_layer n ls 0)"
  by (simp add: get_node_layer_def)

lemma ready_empty: "ready g {} = {n \<in> nodes g. depends_on g n = {}}"
  by (auto simp: ready_def)

lemma layers_cover_acyclic:
  assumes w: "wf_graph g" and gl: "get_layers g = Inr ls" and c: "set (concat ls) = nodes g"
  shows "acyclic (dep_rel g)"
proof -
  from get_layers_wf[OF w] gl have "set (concat ls) \<subseteq> nodes g"
    "ready g (set (concat ls)) = set (concat ls)" "layered g ls" by auto
  from layers_cover_iff_acyclic[OF w this(3,1,2)] c show ?thesis by simp
qed

section \<open>Correctness of the bounded traversal\<close>

lemma reach_Suc_mono: "reach g n k \<subseteq> reach g n (Suc k)"
  by auto

lemma reach_mono: "k \<le> m \<Longrightarrow> reach g n k \<subseteq> reach g n m"
proof (induction m)
  case 0
  then show ?case by simp
next
  case (Suc m)
  show ?case
  proof (cases "k = Suc m")
    case True
    then show ?thesis by simp
  next
    case False
    with Suc.prems have "k \<le> m" by simp
    from Suc.IH[OF this] reach_Suc_mono[of g n m] show ?thesis by blast
  qed
qed

lemma reach_self: "n \<in> reach g n k"
  using reach_mono[of 0 k g n] by auto

lemma reach_pred: "c \<in> reach g n k \<Longrightarrow> p \<in> set (predecessors g c) \<Longrightarrow> p \<in> reach g n (Suc k)"
  by auto

lemma reach_Suc_cases:
  "c \<in> reach g n (Suc k) \<Longrightarrow> c \<in> reach g n k \<or> (\<exists>u \<in> reach g n k. c \<in> set (predecessors g u))"
  by auto

lemma bfs_level_up:
  assumes i: "bfs_inv g D n d queue visited" and no: "\<forall>x \<in> set queue. snd x \<noteq> int d"
  shows "bfs_inv g D n (Suc d) queue visited"
proof -
  from i have q: "bfs_queue_ok g n d visited queue" and s: "sorted (map snd queue)"
    and ex: "bfs_expanded g D n d visited" and lv: "bfs_level g D n d visited queue"
    and nx: "bfs_next g n d visited queue" and sound: "visited \<subseteq> reach g n (nat D) - {n}"
    unfolding bfs_inv_def by blast+
  have q': "bfs_queue_ok g n (Suc d) visited queue"
    unfolding bfs_queue_ok_def
  proof (intro allI impI)
    fix c e assume ce: "(c, e) \<in> set queue"
    with no have "e \<noteq> int d" by force
    with q ce have "e = int d + 1" and rest: "c \<in> reach g n (nat e)" "c \<in> insert n visited"
      "c \<in> set (di_nodes g)" unfolding bfs_queue_ok_def by blast+
    then show "(e = int (Suc d) \<or> e = int (Suc d) + 1) \<and> c \<in> reach g n (nat e)
                 \<and> c \<in> insert n visited \<and> c \<in> set (di_nodes g)" by simp
  qed
  have ex': "bfs_expanded g D n (Suc d) visited"
    unfolding bfs_expanded_def
  proof (intro allI impI ballI)
    fix k c assume k: "k < Suc d" and kD: "int k < D" and c: "c \<in> reach g n k"
    show "set (predecessors g c) \<subseteq> insert n visited"
    proof (cases "k < d")
      case True
      with ex kD c show ?thesis unfolding bfs_expanded_def by blast
    next
      case False
      with k have kd: "k = d" by simp
      with lv kD c have "(c, int d) \<in> set queue \<or> set (predecessors g c) \<subseteq> insert n visited"
        unfolding bfs_level_def by blast
      moreover have "(c, int d) \<notin> set queue" using no by force
      ultimately show ?thesis by blast
    qed
  qed
  have lv': "bfs_level g D n (Suc d) visited queue"
    unfolding bfs_level_def
  proof (intro impI ballI)
    fix c assume dD: "int (Suc d) < D" and c: "c \<in> reach g n (Suc d)"
    then have d1: "int d < D" by simp
    from reach_Suc_cases[OF c]
    show "(c, int (Suc d)) \<in> set queue \<or> set (predecessors g c) \<subseteq> insert n visited"
    proof
      assume "c \<in> reach g n d"
      with ex' d1 have "set (predecessors g c) \<subseteq> insert n visited"
        unfolding bfs_expanded_def by blast
      then show ?thesis by blast
    next
      assume "\<exists>u \<in> reach g n d. c \<in> set (predecessors g u)"
      then obtain u where u: "u \<in> reach g n d" "c \<in> set (predecessors g u)" by blast
      with ex' d1 have cin: "c \<in> insert n visited" unfolding bfs_expanded_def by blast
      show ?thesis
      proof (cases "c \<in> reach g n d")
        case True
        with ex' d1 have "set (predecessors g c) \<subseteq> insert n visited"
          unfolding bfs_expanded_def by blast
        then show ?thesis by blast
      next
        case False
        with reach_self[of n g d] have "c \<noteq> n" by blast
        with cin have "c \<in> visited" by simp
        with nx False have "(c, int d + 1) \<in> set queue" unfolding bfs_next_def by blast
        then show ?thesis by (simp add: add.commute)
      qed
    qed
  qed
  have nx': "bfs_next g n (Suc d) visited queue"
    unfolding bfs_next_def
  proof (intro ballI impI)
    fix c assume c: "c \<in> visited" and nr: "c \<notin> reach g n (Suc d)"
    with reach_Suc_mono[of g n d] have "c \<notin> reach g n d" by blast
    with nx c have "(c, int d + 1) \<in> set queue" unfolding bfs_next_def by blast
    with q have "c \<in> reach g n (nat (int d + 1))" unfolding bfs_queue_ok_def by blast
    moreover have "nat (int d + 1) = Suc d" by simp
    ultimately have "c \<in> reach g n (Suc d)" by simp
    with nr show "(c, int (Suc d) + 1) \<in> set queue" by simp
  qed
  from q' s ex' lv' nx' sound show ?thesis unfolding bfs_inv_def by blast
qed

lemma visit_preds_char:
  "\<exists>new. visit_preds n e ps visited queue = (visited \<union> (set ps - {n}), queue @ new)
         \<and> set new = (\<lambda>p. (p, e + 1)) ` (set ps - visited - {n})"
proof (induction ps arbitrary: visited queue)
  case Nil
  then show ?case by simp
next
  case (Cons p ps)
  show ?case
  proof (cases "p \<notin> visited \<and> p \<noteq> n")
    case True
    from Cons.IH[of "insert p visited" "queue @ [(p, e + 1)]"] obtain new where
      v: "visit_preds n e ps (insert p visited) (queue @ [(p, e + 1)])
            = (insert p visited \<union> (set ps - {n}), (queue @ [(p, e + 1)]) @ new)"
      and sn: "set new = (\<lambda>p. (p, e + 1)) ` (set ps - insert p visited - {n})" by blast
    have "visit_preds n e (p # ps) visited queue
            = (visited \<union> (set (p # ps) - {n}), queue @ ((p, e + 1) # new))"
    proof -
      have "insert p visited \<union> (set ps - {n}) = visited \<union> (set (p # ps) - {n})"
        using True by auto
      with v True show ?thesis by simp
    qed
    moreover have "set ((p, e + 1) # new) = (\<lambda>p. (p, e + 1)) ` (set (p # ps) - visited - {n})"
      using sn True by auto
    ultimately show ?thesis by blast
  next
    case False
    from Cons.IH[of visited queue] obtain new where
      v: "visit_preds n e ps visited queue = (visited \<union> (set ps - {n}), queue @ new)"
      and sn: "set new = (\<lambda>p. (p, e + 1)) ` (set ps - visited - {n})" by blast
    have "visit_preds n e (p # ps) visited queue = (visited \<union> (set (p # ps) - {n}), queue @ new)"
    proof -
      have "visited \<union> (set ps - {n}) = visited \<union> (set (p # ps) - {n})" using False by auto
      with v False show ?thesis by auto
    qed
    moreover have "set new = (\<lambda>p. (p, e + 1)) ` (set (p # ps) - visited - {n})"
      using sn False by auto
    ultimately show ?thesis by blast
  qed
qed

lemma sorted_const: "\<forall>y \<in> set xs. y = (v::int) \<Longrightarrow> sorted xs"
  by (induction xs) auto

lemma bfs_head_cases:
  assumes i: "bfs_inv g D n d ((u, e) # rest) visited"
  shows "e = int d \<or> (e = int d + 1 \<and> (\<forall>x \<in> set ((u, e) # rest). snd x \<noteq> int d))"
proof -
  from i have q: "bfs_queue_ok g n d visited ((u, e) # rest)"
    and s: "sorted (map snd ((u, e) # rest))" unfolding bfs_inv_def by blast+
  from q have "e = int d \<or> e = int d + 1" unfolding bfs_queue_ok_def by auto
  then show ?thesis
  proof
    assume "e = int d"
    then show ?thesis by simp
  next
    assume e: "e = int d + 1"
    have "\<forall>x \<in> set ((u, e) # rest). snd x \<noteq> int d"
    proof
      fix x assume "x \<in> set ((u, e) # rest)"
      then have "snd x \<in> set (map snd ((u, e) # rest))" by (metis image_eqI set_map)
      with s have "e \<le> snd x" by auto
      with e show "snd x \<noteq> int d" by simp
    qed
    with e show ?thesis by blast
  qed
qed

lemma bfs_pop_skip:
  assumes i: "bfs_inv g D n d ((u, int d) # rest) visited" and D: "D \<le> int d"
  shows "bfs_inv g D n d rest visited"
proof -
  from i have q: "bfs_queue_ok g n d visited ((u, int d) # rest)"
    and s: "sorted (map snd ((u, int d) # rest))"
    and ex: "bfs_expanded g D n d visited"
    and nx: "bfs_next g n d visited ((u, int d) # rest)"
    and sound: "visited \<subseteq> reach g n (nat D) - {n}"
    unfolding bfs_inv_def by blast+
  have q': "bfs_queue_ok g n d visited rest" using q unfolding bfs_queue_ok_def by auto
  have s': "sorted (map snd rest)" using s by simp
  have lv': "bfs_level g D n d visited rest" using D unfolding bfs_level_def by simp
  have nx': "bfs_next g n d visited rest" using nx unfolding bfs_next_def by auto
  from q' s' ex lv' nx' sound show ?thesis unfolding bfs_inv_def by blast
qed

lemma bfs_pop_expand:
  assumes i: "bfs_inv g D n d ((u, int d) # rest) visited" and D: "int d < D"
    and nodes: "\<And>p. p \<in> set (predecessors g u) \<Longrightarrow> p \<in> set (di_nodes g)"
    and sn: "set new = (\<lambda>p. (p, int d + 1)) ` (set (predecessors g u) - visited - {n})"
  shows "bfs_inv g D n d (rest @ new) (visited \<union> (set (predecessors g u) - {n}))"
proof -
  let ?P = "set (predecessors g u)"
  let ?v = "visited \<union> (?P - {n})"
  from i have q: "bfs_queue_ok g n d visited ((u, int d) # rest)"
    and s: "sorted (map snd ((u, int d) # rest))"
    and ex: "bfs_expanded g D n d visited"
    and lv: "bfs_level g D n d visited ((u, int d) # rest)"
    and nx: "bfs_next g n d visited ((u, int d) # rest)"
    and sound: "visited \<subseteq> reach g n (nat D) - {n}"
    unfolding bfs_inv_def by blast+
  from q have ur: "u \<in> reach g n d" unfolding bfs_queue_ok_def by force
  have Pr: "?P \<subseteq> reach g n (Suc d)" using ur by auto
  have newD: "\<And>c e. (c, e) \<in> set new \<Longrightarrow> e = int d + 1 \<and> c \<in> ?P \<and> c \<noteq> n"
    unfolding sn by auto
  have q': "bfs_queue_ok g n d ?v (rest @ new)"
    unfolding bfs_queue_ok_def
  proof (intro allI impI)
    fix c e assume "(c, e) \<in> set (rest @ new)"
    then consider "(c, e) \<in> set rest" | "(c, e) \<in> set new" by auto
    then show "(e = int d \<or> e = int d + 1) \<and> c \<in> reach g n (nat e) \<and> c \<in> insert n ?v
                 \<and> c \<in> set (di_nodes g)"
    proof cases
      case 1
      with q have "(e = int d \<or> e = int d + 1) \<and> c \<in> reach g n (nat e) \<and> c \<in> insert n visited
                 \<and> c \<in> set (di_nodes g)" unfolding bfs_queue_ok_def by simp
      then show ?thesis by blast
    next
      case 2
      from newD[OF 2] have e: "e = int d + 1" and cP: "c \<in> ?P" and cn: "c \<noteq> n" by blast+
      have "nat e = Suc d" using e by simp
      with Pr cP have "c \<in> reach g n (nat e)" by auto
      with e cP cn nodes[OF cP] show ?thesis by blast
    qed
  qed
  have s': "sorted (map snd (rest @ new))"
  proof -
    have sr: "sorted (map snd rest)" using s by simp
    have "\<forall>x \<in> set (map snd rest). \<forall>y \<in> set (map snd new). x \<le> y"
    proof (intro ballI)
      fix x y assume x: "x \<in> set (map snd rest)" and y: "y \<in> set (map snd new)"
      from x obtain c where "(c, x) \<in> set rest" by auto
      with q have "x = int d \<or> x = int d + 1" unfolding bfs_queue_ok_def by simp
      moreover from y obtain c' where "(c', y) \<in> set new" by auto
      from newD[OF this] have "y = int d + 1" by blast
      ultimately show "x \<le> y" by auto
    qed
    moreover have "sorted (map snd new)"
    proof -
      have "\<forall>y \<in> set (map snd new). y = int d + 1" using newD by auto
      then show ?thesis by (rule sorted_const)
    qed
    ultimately show ?thesis using sr by (simp add: sorted_append)
  qed
  have ex': "bfs_expanded g D n d ?v" using ex unfolding bfs_expanded_def by blast
  have lv': "bfs_level g D n d ?v (rest @ new)"
    unfolding bfs_level_def
  proof (intro impI ballI)
    fix c assume "int d < D" and c: "c \<in> reach g n d"
    with lv have "(c, int d) \<in> set ((u, int d) # rest) \<or> set (predecessors g c) \<subseteq> insert n visited"
      unfolding bfs_level_def by blast
    then consider "c = u" | "(c, int d) \<in> set rest" | "set (predecessors g c) \<subseteq> insert n visited"
      by auto
    then show "(c, int d) \<in> set (rest @ new) \<or> set (predecessors g c) \<subseteq> insert n ?v"
    proof cases
      case 1
      then have "set (predecessors g c) \<subseteq> insert n ?v" by auto
      then show ?thesis by blast
    next
      case 2
      then show ?thesis by simp
    next
      case 3
      then have "set (predecessors g c) \<subseteq> insert n ?v" by blast
      then show ?thesis by blast
    qed
  qed
  have nx': "bfs_next g n d ?v (rest @ new)"
    unfolding bfs_next_def
  proof (intro ballI impI)
    fix c assume c: "c \<in> ?v" and nr: "c \<notin> reach g n d"
    show "(c, int d + 1) \<in> set (rest @ new)"
    proof (cases "c \<in> visited")
      case True
      with nx nr have "(c, int d + 1) \<in> set ((u, int d) # rest)" unfolding bfs_next_def by blast
      then have "(c, int d + 1) \<in> set rest" by simp
      then show ?thesis by simp
    next
      case False
      with c have "c \<in> ?P - visited - {n}" by blast
      then have "(c, int d + 1) \<in> set new" unfolding sn by blast
      then show ?thesis by simp
    qed
  qed
  have sound': "?v \<subseteq> reach g n (nat D) - {n}"
  proof -
    have "Suc d \<le> nat D" using D by simp
    from reach_mono[OF this] Pr have "?P \<subseteq> reach g n (nat D)" by blast
    with sound show ?thesis by blast
  qed
  from q' s' ex' lv' nx' sound' show ?thesis unfolding bfs_inv_def by blast
qed

lemma bfs_level_up_empty: "bfs_inv g D n d [] visited \<Longrightarrow> bfs_inv g D n (d + k) [] visited"
proof (induction k)
  case 0
  then show ?case by simp
next
  case (Suc k)
  from Suc.IH[OF Suc.prems] have "bfs_inv g D n (d + k) [] visited" .
  then have "bfs_inv g D n (Suc (d + k)) [] visited" by (rule bfs_level_up) simp
  then show ?case by simp
qed

lemma bfs_final:
  assumes i: "bfs_inv g D n d [] visited"
  shows "visited = reach g n (nat D) - {n}"
proof -
  from bfs_level_up_empty[OF i, of "nat D"]
  have ex: "bfs_expanded g D n (d + nat D) visited"
    and sound: "visited \<subseteq> reach g n (nat D) - {n}" unfolding bfs_inv_def by blast+
  have "m \<le> nat D \<Longrightarrow> reach g n m \<subseteq> insert n visited" for m
  proof (induction m)
    case 0
    then show ?case by simp
  next
    case (Suc m)
    then have r: "reach g n m \<subseteq> insert n visited" and "int m < D" and "m < d + nat D" by simp_all
    with ex have "\<forall>c \<in> reach g n m. set (predecessors g c) \<subseteq> insert n visited"
      unfolding bfs_expanded_def by blast
    with r show ?case by auto
  qed
  then have "reach g n (nat D) \<subseteq> insert n visited" by simp
  with sound show ?thesis by blast
qed

lemma descendants_loop_correct:
  "\<forall>c p. p \<in> set (predecessors g c) \<longrightarrow> p \<in> set (di_nodes g) \<Longrightarrow>
   \<exists>d. bfs_inv g D n d queue visited \<Longrightarrow>
   descendants_loop g D n queue visited = Inr (reach g n (nat D) - {n})"
proof (induction g D n queue visited rule: descendants_loop.induct)
  case (1 g max_depth node_key visited)
  then obtain d where "bfs_inv g max_depth node_key d [] visited" by blast
  from bfs_final[OF this] show ?case by simp
next
  case (2 g max_depth node_key current depth queue visited)
  from "2.prems"(2) obtain d0 where i0: "bfs_inv g max_depth node_key d0 ((current, depth) # queue) visited"
    by blast
  have "\<exists>d. bfs_inv g max_depth node_key d ((current, depth) # queue) visited \<and> depth = int d"
  proof -
    from bfs_head_cases[OF i0] show ?thesis
    proof
      assume "depth = int d0"
      with i0 show ?thesis by blast
    next
      assume "depth = int d0 + 1 \<and> (\<forall>x \<in> set ((current, depth) # queue). snd x \<noteq> int d0)"
      then have e: "depth = int (Suc d0)" and no: "\<forall>x \<in> set ((current, depth) # queue). snd x \<noteq> int d0"
        by simp_all
      from bfs_level_up[OF i0 no] e show ?thesis by blast
    qed
  qed
  then obtain d where i: "bfs_inv g max_depth node_key d ((current, int d) # queue) visited"
    and dep: "depth = int d" by blast
  show ?case
  proof (cases "max_depth \<le> depth")
    case True
    with dep have "max_depth \<le> int d" by simp
    from bfs_pop_skip[OF i this] have "\<exists>d. bfs_inv g max_depth node_key d queue visited" by blast
    from "2.IH"(1)[OF True "2.prems"(1) this] True show ?thesis by simp
  next
    case False
    with dep have lt: "int d < max_depth" by simp
    from i have "current \<in> set (di_nodes g)" unfolding bfs_inv_def bfs_queue_ok_def by force
    then have cn: "\<not> current \<notin> set (di_nodes g)" by simp
    from visit_preds_char[of node_key depth "predecessors g current" visited queue] obtain new where
      v: "visit_preds node_key depth (predecessors g current) visited queue
            = (visited \<union> (set (predecessors g current) - {node_key}), queue @ new)"
      and sn: "set new = (\<lambda>p. (p, depth + 1)) ` (set (predecessors g current) - visited - {node_key})"
      by blast
    from sn dep have sn': "set new = (\<lambda>p. (p, int d + 1)) ` (set (predecessors g current) - visited - {node_key})"
      by simp
    from "2.prems"(1) have cl: "\<And>p. p \<in> set (predecessors g current) \<Longrightarrow> p \<in> set (di_nodes g)"
      by blast
    from bfs_pop_expand[OF i lt cl sn']
    have "\<exists>d. bfs_inv g max_depth node_key d (queue @ new)
                 (visited \<union> (set (predecessors g current) - {node_key}))" by blast
    from "2.IH"(2)[OF False cn v[symmetric] "2.prems"(1) this] False cn v
    show ?thesis by simp
  qed
qed

lemma bfs_inv_initial:
  "n \<in> set (di_nodes g) \<Longrightarrow> bfs_inv g D n 0 [(n, 0)] {}"
  unfolding bfs_inv_def bfs_queue_ok_def bfs_expanded_def bfs_level_def bfs_next_def by simp

lemma di_wf_predecessors:
  assumes "di_wf K g" "p \<in> set (predecessors g c)"
  shows "p \<in> set (di_nodes g)"
proof -
  from assms(2) obtain e where "e \<in> set (di_edges g)" "fst e = p" "fst (snd e) = c"
    unfolding predecessors_def by auto
  then have "(p, c) \<in> di_edge_set g" unfolding di_edge_set_def by force
  with assms(1) show ?thesis unfolding di_wf_def by blast
qed

lemma get_descendants_correct:
  assumes "di_wf K g" "n \<in> K"
  shows "get_descendants g D n = Inr (reach g n (nat D) - {n})"
proof -
  from assms have "n \<in> set (di_nodes g)" unfolding di_wf_def by simp
  from bfs_inv_initial[OF this, of D] have "\<exists>d. bfs_inv g D n d [(n, 0)] {}" by blast
  have "\<forall>c p. p \<in> set (predecessors g c) \<longrightarrow> p \<in> set (di_nodes g)"
    using di_wf_predecessors[OF assms(1)] by blast
  from descendants_loop_correct[OF this \<open>\<exists>d. bfs_inv g D n d [(n, 0)] {}\<close>]
  show ?thesis unfolding get_descendants_def by simp
qed

lemma calculate_impact_scores_loop_correct:
  assumes w: "di_wf K g"
  shows "ao_key ` set objs \<subseteq> K \<Longrightarrow>
         \<exists>scores'. calculate_impact_scores_loop g D objs scores = Inr scores'
           \<and> (\<forall>k. scores' k = (if \<exists>obj \<in> set objs. is_failed obj \<and> ao_key obj = k
                                then Some (bounded_score g D k) else scores k))"
proof (induction objs arbitrary: scores)
  case Nil
  then show ?case by simp
next
  case (Cons obj objs)
  from Cons.prems have sub: "ao_key ` set objs \<subseteq> K" and k: "ao_key obj \<in> K" by auto
  show ?case
  proof (cases "is_failed obj")
    case False
    from Cons.IH[OF sub, of scores] obtain scores' where
      l: "calculate_impact_scores_loop g D objs scores = Inr scores'"
      and c: "\<forall>k. scores' k = (if \<exists>ob \<in> set objs. is_failed ob \<and> ao_key ob = k
                                then Some (bounded_score g D k) else scores k)" by blast
    have "calculate_impact_scores_loop g D (obj # objs) scores = Inr scores'"
      using False l by simp
    moreover have "\<forall>k. scores' k = (if \<exists>ob \<in> set (obj # objs). is_failed ob \<and> ao_key ob = k
                                then Some (bounded_score g D k) else scores k)"
    proof
      fix k
      have "(\<exists>ob \<in> set (obj # objs). is_failed ob \<and> ao_key ob = k)
              \<longleftrightarrow> (\<exists>ob \<in> set objs. is_failed ob \<and> ao_key ob = k)" using False by auto
      then show "scores' k = (if \<exists>ob \<in> set (obj # objs). is_failed ob \<and> ao_key ob = k
                                then Some (bounded_score g D k) else scores k)"
        using c by presburger
    qed
    ultimately show ?thesis by blast
  next
    case True
    define s1 where "s1 = scores(ao_key obj \<mapsto> bounded_score g D (ao_key obj))"
    from Cons.IH[OF sub, of s1] obtain scores' where
      l: "calculate_impact_scores_loop g D objs s1 = Inr scores'"
      and c: "\<forall>k. scores' k = (if \<exists>ob \<in> set objs. is_failed ob \<and> ao_key ob = k
                                then Some (bounded_score g D k) else s1 k)" by blast
    have gd: "get_descendants g D (ao_key obj) = Inr (reach g (ao_key obj) (nat D) - {ao_key obj})"
      by (rule get_descendants_correct[OF w k])
    have "calculate_impact_scores_loop g D (obj # objs) scores = Inr scores'"
      using True l gd unfolding s1_def bounded_score_def by simp
    moreover have "\<forall>k. scores' k = (if \<exists>ob \<in> set (obj # objs). is_failed ob \<and> ao_key ob = k
                                then Some (bounded_score g D k) else scores k)"
    proof
      fix k
      show "scores' k = (if \<exists>ob \<in> set (obj # objs). is_failed ob \<and> ao_key ob = k
                                then Some (bounded_score g D k) else scores k)"
      proof (cases "\<exists>ob \<in> set objs. is_failed ob \<and> ao_key ob = k")
        case t: True
        then have "\<exists>ob \<in> set (obj # objs). is_failed ob \<and> ao_key ob = k" by auto
        with c t show ?thesis by presburger
      next
        case f: False
        with c have sk: "scores' k = s1 k" by presburger
        show ?thesis
        proof (cases "ao_key obj = k")
          case e: True
          then have "\<exists>ob \<in> set (obj # objs). is_failed ob \<and> ao_key ob = k" using True by auto
          moreover have "s1 k = Some (bounded_score g D k)" unfolding s1_def using e by simp
          ultimately show ?thesis using sk by presburger
        next
          case ne: False
          then have "\<not> (\<exists>ob \<in> set (obj # objs). is_failed ob \<and> ao_key ob = k)" using f by auto
          moreover have "s1 k = scores k" unfolding s1_def using ne by simp
          ultimately show ?thesis using sk by presburger
        qed
      qed
    qed
    ultimately show ?thesis by blast
  qed
qed

lemma finite_descendants: "finite (descendants g n)"
proof -
  have "descendants g n \<subseteq> fst ` di_edge_set g"
  proof
    fix p assume "p \<in> descendants g n"
    then have "(p, n) \<in> (di_edge_set g)\<^sup>+" unfolding descendants_def by simp
    then obtain z where "(p, z) \<in> di_edge_set g" by (meson tranclD)
    then show "p \<in> fst ` di_edge_set g" by force
  qed
  moreover have "finite (fst ` di_edge_set g)" unfolding di_edge_set_def by simp
  ultimately show ?thesis by (rule finite_subset)
qed

section \<open>Self-loops (C5)\<close>

text \<open>
  C5. The claim: for every input, also one where an object lists its own qualified name as a
  dependency, neither graph holds an edge from a node to itself. \<open>_add_edge\<close> refuses such an
  edge, but \<open>build\<close> stores the declared dependency without going through it, and the analyzer's
  \<open>build_graph\<close> adds the resolved edge without a test. For the table \<open>dbo.A\<close> that declares
  \<open>dbo.A\<close> both graphs hold the self-loop.
\<close>

theorem C5_self_loop_built:
  "''dbo.A'' \<in> depends_on (new_graph [db_object ''A'' TABLE ''dbo'' ''Passed'' [''dbo.A'']]) ''dbo.A''
   \<and> (''dbo.a'', ''dbo.a'', explicit)
       \<in> set (di_edges (build_graph [assessment_object ''A'' ''TABLE'' ''dbo'' ''Passed'' [''dbo.A'']]))"
  by code_simp

section \<open>Unknown dependency references (C6)\<close>

text \<open>
  C6, as stated, fails for the batch-grouping graph: \<open>build\<close> registers every non-blank
  declared dependency as a node and as an edge endpoint, whether or not an object has that name.
\<close>

theorem C6_unknown_dependency_becomes_node:
  "''dbo.Missing'' \<in> nodes (new_graph [db_object ''A'' TABLE ''dbo'' ''Passed'' [''dbo.Missing'']])
   \<and> ''dbo.Missing'' \<in> depends_on (new_graph [db_object ''A'' TABLE ''dbo'' ''Passed'' [''dbo.Missing'']]) ''dbo.A''
   \<and> ''dbo.Missing'' \<noteq> qualified_name (db_object ''A'' TABLE ''dbo'' ''Passed'' [''dbo.Missing''])"
  by code_simp

text \<open>
  C6, amended. In the analyzer the nodes are exactly the keys of the input objects and every
  edge joins two of them, so a reference that resolves to no object is dropped. In the
  batch-grouping graph the nodes are the qualified names of the input objects together with
  every non-blank declared dependency, stripped; every edge joins two nodes; and every
  non-blank declared dependency of an object, stripped, is an edge from that object, whether
  or not an object has that name. Both constructions are total: no input makes them fail.
\<close>

theorem C6_nodes_and_edge_endpoints:
  "set (di_nodes (build_graph aobjects)) = ao_key ` set aobjects
   \<and> di_edge_set (build_graph aobjects) \<subseteq> ao_key ` set aobjects \<times> ao_key ` set aobjects
   \<and> nodes (new_graph objects) = qualified_name ` set objects
        \<union> {strip d |d obj. obj \<in> set objects \<and> d \<in> set (dependencies obj) \<and> strip d \<noteq> []}
   \<and> (\<forall>a b. b \<in> depends_on (new_graph objects) a
          \<longrightarrow> a \<in> nodes (new_graph objects) \<and> b \<in> nodes (new_graph objects))
   \<and> (\<forall>obj d. obj \<in> set objects \<and> d \<in> set (dependencies obj) \<and> strip d \<noteq> []
          \<longrightarrow> strip d \<in> depends_on (new_graph objects) (qualified_name obj))"
proof -
  have "di_wf (ao_key ` set aobjects) (build_graph aobjects)" by (rule di_wf_build_graph)
  then have a1: "set (di_nodes (build_graph aobjects)) = ao_key ` set aobjects"
    and a2: "di_edge_set (build_graph aobjects) \<subseteq> ao_key ` set aobjects \<times> ao_key ` set aobjects"
    unfolding di_wf_def by blast+
  have "wf_graph (new_graph objects)" by (rule wf_graph_new_graph)
  then have b2: "\<forall>a b. b \<in> depends_on (new_graph objects) a
          \<longrightarrow> a \<in> nodes (new_graph objects) \<and> b \<in> nodes (new_graph objects)"
    unfolding wf_graph_def by blast
  have b3: "\<forall>obj d. obj \<in> set objects \<and> d \<in> set (dependencies obj) \<and> strip d \<noteq> []
          \<longrightarrow> strip d \<in> depends_on (new_graph objects) (qualified_name obj)"
    using new_graph_declared_edge by blast
  show ?thesis by (intro conjI a1 a2 nodes_new_graph b2 b3)
qed

theorem C6_nodes_and_edge_endpoints_witness:
  "''dbo.Missing'' \<in> depends_on (new_graph [db_object ''A'' TABLE ''dbo'' ''Passed'' [''dbo.Missing'']]) ''dbo.A''
   \<and> ''dbo.A'' \<in> nodes (new_graph [db_object ''A'' TABLE ''dbo'' ''Passed'' [''dbo.Missing'']])
   \<and> ''dbo.Missing'' \<in> nodes (new_graph [db_object ''A'' TABLE ''dbo'' ''Passed'' [''dbo.Missing'']])
   \<and> set (di_nodes (build_graph [assessment_object ''A'' ''TABLE'' ''dbo'' ''Passed'' [''dbo.Missing'']]))
       = {''dbo.a''}"
proof -
  let ?obj = "db_object ''A'' TABLE ''dbo'' ''Passed'' [''dbo.Missing'']"
  let ?objs = "[?obj]"
  let ?aobjs = "[assessment_object ''A'' ''TABLE'' ''dbo'' ''Passed'' [''dbo.Missing'']]"
  have k: "ao_key ` set ?aobjs = {''dbo.a''}" by code_simp
  have m: "?obj \<in> set ?objs \<and> ''dbo.Missing'' \<in> set (dependencies ?obj) \<and> strip ''dbo.Missing'' \<noteq> []"
    by code_simp
  have s: "strip ''dbo.Missing'' = ''dbo.Missing''" "qualified_name ?obj = ''dbo.A''" by code_simp+
  note inst = C6_nodes_and_edge_endpoints[of ?aobjs ?objs]
  from inst have n: "set (di_nodes (build_graph ?aobjs)) = ao_key ` set ?aobjs" by (rule conjunct1)
  from inst have e: "\<forall>a b. b \<in> depends_on (new_graph ?objs) a
          \<longrightarrow> a \<in> nodes (new_graph ?objs) \<and> b \<in> nodes (new_graph ?objs)"
    by (elim conjE)
  from inst have d: "\<forall>obj d. obj \<in> set ?objs \<and> d \<in> set (dependencies obj) \<and> strip d \<noteq> []
          \<longrightarrow> strip d \<in> depends_on (new_graph ?objs) (qualified_name obj)"
    by (elim conjE)
  from d m have "strip ''dbo.Missing'' \<in> depends_on (new_graph ?objs) (qualified_name ?obj)" by blast
  then have h: "''dbo.Missing'' \<in> depends_on (new_graph ?objs) ''dbo.A''" unfolding s .
  from e h have ab: "''dbo.A'' \<in> nodes (new_graph ?objs) \<and> ''dbo.Missing'' \<in> nodes (new_graph ?objs)"
    by blast
  from h ab n[unfolded k] show ?thesis by blast
qed

section \<open>Implicit edges of external tables (C9)\<close>

text \<open>
  C9, as stated, fails for the analyzer: \<open>_add_implicit_dependencies\<close> collects the
  external data sources only, so an external table gets no edge to an external file format.
\<close>

theorem C9_analyzer_no_file_format_edge:
  "\<not> has_edge (build_graph [assessment_object ''T'' ''EXTERNAL_TABLE'' ''dbo'' ''Passed'' [],
                             assessment_object ''F'' ''EXTERNAL_FILE_FORMAT'' ''dbo'' ''Passed'' []])
        ''dbo.t'' ''dbo.f''"
  by code_simp

text \<open>
  C9, amended. In the batch-grouping graph an external table depends on every external data
  source and every external file format of the input whose qualified name is not its own. In
  the analyzer an external table has an edge to every external data source of the input, and
  the edges of the analyzer are exactly the declared dependencies that resolve, the edges of
  the statistics rule and these edges to data sources. No edge to a file format is inferred:
  an edge from an external table to the key of a file format that is neither a resolved
  declared dependency nor an edge of the statistics rule exists only when that key is also
  the key of an external data source.
\<close>

theorem C9_external_table_edges:
  "(obj \<in> set objects \<and> object_type obj = EXTERNAL_TABLE \<and> other \<in> set objects
      \<and> (object_type other = EXTERNAL_DATA_SOURCE \<or> object_type other = EXTERNAL_FILE_FORMAT)
      \<and> qualified_name obj \<noteq> qualified_name other
      \<longrightarrow> qualified_name other \<in> depends_on (new_graph objects) (qualified_name obj))
   \<and> (aobj \<in> set aobjects \<and> ao_object_type aobj = ''EXTERNAL_TABLE'' \<and> src \<in> set aobjects
      \<and> ao_object_type src = ''EXTERNAL_DATA_SOURCE''
      \<longrightarrow> has_edge (build_graph aobjects) (ao_key aobj) (ao_key src))
   \<and> di_edge_set (build_graph aobjects)
        = explicit_edges aobjects \<union> statistics_edges aobjects \<union> external_source_edges aobjects
   \<and> (has_edge (build_graph aobjects) (ao_key aobj) (ao_key fmt)
        \<and> (ao_key aobj, ao_key fmt) \<notin> explicit_edges aobjects \<union> statistics_edges aobjects
      \<longrightarrow> (\<exists>tbl src. tbl \<in> set aobjects \<and> ao_object_type tbl = ''EXTERNAL_TABLE''
              \<and> ao_key tbl = ao_key aobj \<and> src \<in> set aobjects
              \<and> ao_object_type src = ''EXTERNAL_DATA_SOURCE'' \<and> ao_key src = ao_key fmt))"
proof -
  have neg: "has_edge (build_graph aobjects) (ao_key aobj) (ao_key fmt)
        \<and> (ao_key aobj, ao_key fmt) \<notin> explicit_edges aobjects \<union> statistics_edges aobjects
      \<longrightarrow> (\<exists>tbl src. tbl \<in> set aobjects \<and> ao_object_type tbl = ''EXTERNAL_TABLE''
              \<and> ao_key tbl = ao_key aobj \<and> src \<in> set aobjects
              \<and> ao_object_type src = ''EXTERNAL_DATA_SOURCE'' \<and> ao_key src = ao_key fmt)"
  proof
    assume a: "has_edge (build_graph aobjects) (ao_key aobj) (ao_key fmt)
        \<and> (ao_key aobj, ao_key fmt) \<notin> explicit_edges aobjects \<union> statistics_edges aobjects"
    then have "(ao_key aobj, ao_key fmt) \<in> di_edge_set (build_graph aobjects)"
      by (simp add: has_edge_iff)
    with a have "(ao_key aobj, ao_key fmt) \<in> external_source_edges aobjects"
      unfolding di_edge_set_build_graph by blast
    then obtain tbl src where "ao_key aobj = ao_key tbl" "ao_key fmt = ao_key src"
      "tbl \<in> set aobjects" "ao_object_type tbl = ''EXTERNAL_TABLE''"
      "src \<in> set aobjects" "ao_object_type src = ''EXTERNAL_DATA_SOURCE''"
      unfolding external_source_edges_def by auto
    then have "tbl \<in> set aobjects \<and> ao_object_type tbl = ''EXTERNAL_TABLE''
              \<and> ao_key tbl = ao_key aobj \<and> src \<in> set aobjects
              \<and> ao_object_type src = ''EXTERNAL_DATA_SOURCE'' \<and> ao_key src = ao_key fmt" by simp
    then show "\<exists>tbl src. tbl \<in> set aobjects \<and> ao_object_type tbl = ''EXTERNAL_TABLE''
              \<and> ao_key tbl = ao_key aobj \<and> src \<in> set aobjects
              \<and> ao_object_type src = ''EXTERNAL_DATA_SOURCE'' \<and> ao_key src = ao_key fmt"
      by blast
  qed
  have p1: "obj \<in> set objects \<and> object_type obj = EXTERNAL_TABLE \<and> other \<in> set objects
      \<and> (object_type other = EXTERNAL_DATA_SOURCE \<or> object_type other = EXTERNAL_FILE_FORMAT)
      \<and> qualified_name obj \<noteq> qualified_name other
      \<longrightarrow> qualified_name other \<in> depends_on (new_graph objects) (qualified_name obj)"
    using new_graph_external[of obj objects other] by blast
  have p2: "aobj \<in> set aobjects \<and> ao_object_type aobj = ''EXTERNAL_TABLE'' \<and> src \<in> set aobjects
      \<and> ao_object_type src = ''EXTERNAL_DATA_SOURCE''
      \<longrightarrow> has_edge (build_graph aobjects) (ao_key aobj) (ao_key src)"
    using build_graph_external[of aobj aobjects src] by blast
  show ?thesis by (intro conjI p1 p2 di_edge_set_build_graph neg)
qed

theorem C9_external_table_edges_witness:
  "''dbo.F'' \<in> depends_on
       (new_graph [db_object ''T'' EXTERNAL_TABLE ''dbo'' ''Passed'' [],
                   db_object ''F'' EXTERNAL_FILE_FORMAT ''dbo'' ''Passed'' []]) ''dbo.T''
   \<and> has_edge (build_graph [assessment_object ''T'' ''EXTERNAL_TABLE'' ''dbo'' ''Passed'' [],
                            assessment_object ''S'' ''EXTERNAL_DATA_SOURCE'' ''dbo'' ''Passed'' []])
        ''dbo.t'' ''dbo.s''
   \<and> (''dbo.t'', ''dbo.s'') \<notin>
        explicit_edges [assessment_object ''T'' ''EXTERNAL_TABLE'' ''dbo'' ''Passed'' [],
                        assessment_object ''S'' ''EXTERNAL_DATA_SOURCE'' ''dbo'' ''Passed'' []]
        \<union> statistics_edges [assessment_object ''T'' ''EXTERNAL_TABLE'' ''dbo'' ''Passed'' [],
                             assessment_object ''S'' ''EXTERNAL_DATA_SOURCE'' ''dbo'' ''Passed'' []]
   \<and> (\<exists>src. src \<in> set [assessment_object ''T'' ''EXTERNAL_TABLE'' ''dbo'' ''Passed'' [],
                          assessment_object ''S'' ''EXTERNAL_DATA_SOURCE'' ''dbo'' ''Passed'' []]
            \<and> ao_object_type src = ''EXTERNAL_DATA_SOURCE'' \<and> ao_key src = ''dbo.s'')"
proof -
  let ?t = "db_object ''T'' EXTERNAL_TABLE ''dbo'' ''Passed'' []"
  let ?f = "db_object ''F'' EXTERNAL_FILE_FORMAT ''dbo'' ''Passed'' []"
  let ?at = "assessment_object ''T'' ''EXTERNAL_TABLE'' ''dbo'' ''Passed'' []"
  let ?as = "assessment_object ''S'' ''EXTERNAL_DATA_SOURCE'' ''dbo'' ''Passed'' []"
  have h1: "?t \<in> set [?t, ?f] \<and> object_type ?t = EXTERNAL_TABLE \<and> ?f \<in> set [?t, ?f]
        \<and> (object_type ?f = EXTERNAL_DATA_SOURCE \<or> object_type ?f = EXTERNAL_FILE_FORMAT)
        \<and> qualified_name ?t \<noteq> qualified_name ?f"
    by (simp add: db_object_def qualified_name_def)
  have h2: "?at \<in> set [?at, ?as] \<and> ao_object_type ?at = ''EXTERNAL_TABLE'' \<and> ?as \<in> set [?at, ?as]
        \<and> ao_object_type ?as = ''EXTERNAL_DATA_SOURCE''"
    by (simp add: assessment_object_def)
  have q: "qualified_name ?t = ''dbo.T''" "qualified_name ?f = ''dbo.F''"
    by (simp_all add: db_object_def qualified_name_def)
  have k: "ao_key ?at = ''dbo.t''" "ao_key ?as = ''dbo.s''" by code_simp+
  have ne: "(ao_key ?at, ao_key ?as) \<notin> explicit_edges [?at, ?as] \<union> statistics_edges [?at, ?as]"
    by (auto simp: explicit_edges_def statistics_edges_def assessment_object_def)
  note inst = C9_external_table_edges[of ?t "[?t, ?f]" ?f ?at "[?at, ?as]" ?as ?as]
  from inst h1 have c1: "qualified_name ?f \<in> depends_on (new_graph [?t, ?f]) (qualified_name ?t)"
    by blast
  from inst h2 have c2: "has_edge (build_graph [?at, ?as]) (ao_key ?at) (ao_key ?as)" by blast
  from inst c2 ne have "\<exists>tbl src. tbl \<in> set [?at, ?as] \<and> ao_object_type tbl = ''EXTERNAL_TABLE''
              \<and> ao_key tbl = ao_key ?at \<and> src \<in> set [?at, ?as]
              \<and> ao_object_type src = ''EXTERNAL_DATA_SOURCE'' \<and> ao_key src = ao_key ?as"
    by blast
  then have c3: "\<exists>src. src \<in> set [?at, ?as]
            \<and> ao_object_type src = ''EXTERNAL_DATA_SOURCE'' \<and> ao_key src = ao_key ?as" by blast
  from c1 c2 ne c3 show ?thesis unfolding q k by blast
qed

section \<open>Topological sort (C3)\<close>

text \<open>
  C3. On an acyclic graph \<open>topological_sort\<close> returns an order that holds every node once and
  in which every dependency of a node stands strictly before the node. It raises an error
  exactly when the graph has a cycle (a self-loop included), and the error is the
  \<open>ValueError\<close> of the incomplete sort: the result is never silently truncated.
\<close>

theorem C3_topological_sort:
  "(acyclic (dep_rel (new_graph objects)) \<longrightarrow>
      (\<exists>order. topological_sort (new_graph objects) = Inr order
          \<and> distinct order \<and> set order = nodes (new_graph objects)
          \<and> (\<forall>i<length order. \<forall>b \<in> depends_on (new_graph objects) (order ! i).
                \<exists>j<i. order ! j = b)))
   \<and> ((\<exists>e. topological_sort (new_graph objects) = Inl e) \<longleftrightarrow> \<not> acyclic (dep_rel (new_graph objects)))
   \<and> (\<forall>e. topological_sort (new_graph objects) = Inl e \<longrightarrow> (\<exists>unresolved. e = ValueError unresolved))"
proof -
  let ?g = "new_graph objects"
  have w: "wf_graph ?g" by (rule wf_graph_new_graph)
  from topological_sort_wf[OF w] obtain r where
    dist: "distinct r" and sub: "set r \<subseteq> nodes ?g" and rd: "ready ?g (set r) = set r"
    and ord: "\<forall>i<length r. depends_on ?g (r ! i) \<subseteq> set (take i r)"
    and ts: "topological_sort ?g =
                (if set r = nodes ?g then Inr r
                 else Inl (ValueError (take 10 (sorted_list_of_set (nodes ?g - set r)))))"
    by blast
  have iff: "set r = nodes ?g \<longleftrightarrow> acyclic (dep_rel ?g)"
  proof
    assume "set r = nodes ?g"
    then have "nodes ?g \<subseteq> set r" by simp
    from ordered_acyclic[OF this w ord dist] show "acyclic (dep_rel ?g)" .
  next
    assume a: "acyclic (dep_rel ?g)"
    from rd have "ready ?g (set r) \<subseteq> set r" by simp
    from ready_fixpoint[OF w a sub this] show "set r = nodes ?g" .
  qed
  have before: "\<forall>i<length r. \<forall>b \<in> depends_on ?g (r ! i). \<exists>j<i. r ! j = b"
  proof (intro allI impI ballI)
    fix i b assume i: "i < length r" and b: "b \<in> depends_on ?g (r ! i)"
    with ord have "b \<in> set (take i r)" by blast
    then obtain j where "j < length (take i r)" "take i r ! j = b"
      unfolding in_set_conv_nth by blast
    with i show "\<exists>j<i. r ! j = b" by auto
  qed
  show ?thesis using ts iff dist before by auto
qed

theorem C3_topological_sort_witness:
  "acyclic (dep_rel (new_graph ex_acyclic))
   \<and> topological_sort (new_graph ex_acyclic) = Inr [''dbo.A'', ''dbo.C'', ''dbo.B'', ''dbo.D'']
   \<and> \<not> acyclic (dep_rel (new_graph ex_cycle))
   \<and> topological_sort (new_graph ex_cycle) = Inl (ValueError [''dbo.X'', ''dbo.Y'', ''dbo.Z''])"
proof -
  have a: "topological_sort (new_graph ex_acyclic) = Inr [''dbo.A'', ''dbo.C'', ''dbo.B'', ''dbo.D'']"
    by code_simp
  have c: "topological_sort (new_graph ex_cycle) = Inl (ValueError [''dbo.X'', ''dbo.Y'', ''dbo.Z''])"
    by code_simp
  from C3_topological_sort[of ex_acyclic] a have "acyclic (dep_rel (new_graph ex_acyclic))" by auto
  moreover from C3_topological_sort[of ex_cycle] c have "\<not> acyclic (dep_rel (new_graph ex_cycle))" by auto
  ultimately show ?thesis using a c by blast
qed

section \<open>Layers of an acyclic graph (C8)\<close>

text \<open>
  C8. On an acyclic graph \<open>get_layers\<close> assigns every node exactly one layer, layer 0 is
  exactly the set of nodes without dependencies, and the layer index of a node, as
  \<open>get_node_layer\<close> returns it, is strictly greater than the layer index of each of its
  dependencies.
\<close>

theorem C8_layers_of_acyclic_graph:
  "acyclic (dep_rel (new_graph objects)) \<longrightarrow>
     (\<exists>layers. get_layers (new_graph objects) = Inr layers
        \<and> distinct (concat layers) \<and> set (concat layers) = nodes (new_graph objects)
        \<and> (if nodes (new_graph objects) = {} then layers = []
            else set (layers ! 0) = {n \<in> nodes (new_graph objects). depends_on (new_graph objects) n = {}})
        \<and> (\<forall>n \<in> nodes (new_graph objects).
              \<exists>ln. get_node_layer (new_graph objects) n = Inr ln \<and> 0 \<le> ln
                 \<and> (\<forall>m \<in> depends_on (new_graph objects) n.
                       \<exists>lm. get_node_layer (new_graph objects) m = Inr lm \<and> 0 \<le> lm \<and> lm < ln)))"
proof
  let ?g = "new_graph objects"
  assume a: "acyclic (dep_rel ?g)"
  have w: "wf_graph ?g" by (rule wf_graph_new_graph)
  from get_layers_wf[OF w] obtain ls where gl: "get_layers ?g = Inr ls"
    and dist: "distinct (concat ls)" and sub: "set (concat ls) \<subseteq> nodes ?g"
    and fp: "ready ?g (set (concat ls)) = set (concat ls)" and lay: "layered ?g ls"
    and first: "if ready ?g {} = {} then ls = [] else ls \<noteq> [] \<and> set (ls ! 0) = ready ?g {}"
    by blast
  from layers_cover_iff_acyclic[OF w lay sub fp] a have cov: "set (concat ls) = nodes ?g" by simp
  have l0: "if nodes ?g = {} then ls = []
            else set (ls ! 0) = {n \<in> nodes ?g. depends_on ?g n = {}}"
  proof (cases "nodes ?g = {}")
    case True
    then have "ready ?g {} = {}" by (simp add: ready_def)
    with first True show ?thesis by simp
  next
    case False
    have "ready ?g {} \<noteq> {}"
    proof
      assume "ready ?g {} = {}"
      with first have "ls = []" by simp
      with cov False show False by simp
    qed
    with first False show ?thesis by (simp add: ready_empty)
  qed
  have nl: "\<forall>n \<in> nodes ?g.
              \<exists>ln. get_node_layer ?g n = Inr ln \<and> 0 \<le> ln
                 \<and> (\<forall>m \<in> depends_on ?g n.
                       \<exists>lm. get_node_layer ?g m = Inr lm \<and> 0 \<le> lm \<and> lm < ln)"
  proof
    fix n assume "n \<in> nodes ?g"
    with cov have nin: "n \<in> set (concat ls)" by simp
    from find_layer_first[OF nin, of 0] have pos: "0 \<le> find_layer n ls 0" by auto
    have "\<forall>m \<in> depends_on ?g n.
            \<exists>lm. get_node_layer ?g m = Inr lm \<and> 0 \<le> lm \<and> lm < find_layer n ls 0"
    proof
      fix m assume "m \<in> depends_on ?g n"
      from layer_edge[OF lay nin this]
      have "0 \<le> find_layer m ls 0 \<and> find_layer m ls 0 < find_layer n ls 0" by simp
      with get_node_layer_eq[OF gl, of m]
      show "\<exists>lm. get_node_layer ?g m = Inr lm \<and> 0 \<le> lm \<and> lm < find_layer n ls 0" by blast
    qed
    with pos get_node_layer_eq[OF gl, of n]
    show "\<exists>ln. get_node_layer ?g n = Inr ln \<and> 0 \<le> ln
                 \<and> (\<forall>m \<in> depends_on ?g n.
                       \<exists>lm. get_node_layer ?g m = Inr lm \<and> 0 \<le> lm \<and> lm < ln)" by blast
  qed
  show "\<exists>layers. get_layers ?g = Inr layers
        \<and> distinct (concat layers) \<and> set (concat layers) = nodes ?g
        \<and> (if nodes ?g = {} then layers = []
            else set (layers ! 0) = {n \<in> nodes ?g. depends_on ?g n = {}})
        \<and> (\<forall>n \<in> nodes ?g.
              \<exists>ln. get_node_layer ?g n = Inr ln \<and> 0 \<le> ln
                 \<and> (\<forall>m \<in> depends_on ?g n.
                       \<exists>lm. get_node_layer ?g m = Inr lm \<and> 0 \<le> lm \<and> lm < ln))"
    by (rule exI[of _ ls]) (intro conjI gl dist cov l0 nl)
qed

theorem C8_layers_of_acyclic_graph_witness:
  "acyclic (dep_rel (new_graph ex_acyclic))
   \<and> get_layers (new_graph ex_acyclic) = Inr [[''dbo.A'', ''dbo.C''], [''dbo.B''], [''dbo.D'']]
   \<and> set (concat [[''dbo.A'', ''dbo.C''], [''dbo.B''], [''dbo.D'']]) = nodes (new_graph ex_acyclic)
   \<and> ''dbo.B'' \<in> depends_on (new_graph ex_acyclic) ''dbo.D''
   \<and> get_node_layer (new_graph ex_acyclic) ''dbo.B'' = Inr 1
   \<and> get_node_layer (new_graph ex_acyclic) ''dbo.D'' = Inr 2"
proof -
  let ?g = "new_graph ex_acyclic"
  have gl: "get_layers ?g = Inr [[''dbo.A'', ''dbo.C''], [''dbo.B''], [''dbo.D'']]" by code_simp
  have n: "nodes ?g = {''dbo.A'', ''dbo.B'', ''dbo.C'', ''dbo.D''}" by code_simp
  then have cov: "set (concat [[''dbo.A'', ''dbo.C''], [''dbo.B''], [''dbo.D'']]) = nodes ?g" by auto
  have a: "acyclic (dep_rel ?g)"
    by (rule layers_cover_acyclic[OF wf_graph_new_graph gl cov])
  have d: "''dbo.B'' \<in> depends_on ?g ''dbo.D''" by code_simp
  have dn: "''dbo.D'' \<in> nodes ?g" using n by simp
  from C8_layers_of_acyclic_graph[of ex_acyclic] a obtain layers where
    l: "get_layers ?g = Inr layers"
    and nl: "\<forall>n \<in> nodes ?g.
              \<exists>ln. get_node_layer ?g n = Inr ln \<and> 0 \<le> ln
                 \<and> (\<forall>m \<in> depends_on ?g n.
                       \<exists>lm. get_node_layer ?g m = Inr lm \<and> 0 \<le> lm \<and> lm < ln)" by blast
  from nl dn d obtain ln lm where
    "get_node_layer ?g ''dbo.D'' = Inr ln" "get_node_layer ?g ''dbo.B'' = Inr lm" "lm < ln" by blast
  moreover have "get_node_layer ?g ''dbo.B'' = Inr 1" by code_simp
  moreover have "get_node_layer ?g ''dbo.D'' = Inr 2" by code_simp
  ultimately show ?thesis using a gl cov d by blast
qed

section \<open>Layers of a graph with cycles (C10)\<close>

text \<open>
  C10. \<open>get_layers\<close> always returns; a node that lies on a cycle is in none of the returned
  layers (there is no final layer that collects such nodes), \<open>get_node_layer\<close> returns -1
  for it and the sort key of the partitioner takes the sentinel 999 for it. The returned
  layers hold all the nodes exactly when the graph is acyclic.
\<close>

theorem C10_layers_of_cyclic_graph:
  "\<exists>layers. get_layers (new_graph objects) = Inr layers
     \<and> (\<forall>n. (n, n) \<in> (dep_rel (new_graph objects))\<^sup>+ \<longrightarrow>
            n \<notin> set (concat layers) \<and> get_node_layer (new_graph objects) n = Inr (- 1)
            \<and> layer_key layers n = 999)
     \<and> (set (concat layers) = nodes (new_graph objects) \<longleftrightarrow> acyclic (dep_rel (new_graph objects)))"
proof -
  let ?g = "new_graph objects"
  have w: "wf_graph ?g" by (rule wf_graph_new_graph)
  from get_layers_wf[OF w] obtain ls where gl: "get_layers ?g = Inr ls"
    and sub: "set (concat ls) \<subseteq> nodes ?g"
    and fp: "ready ?g (set (concat ls)) = set (concat ls)" and lay: "layered ?g ls"
    by blast
  have cyc: "\<forall>n. (n, n) \<in> (dep_rel ?g)\<^sup>+ \<longrightarrow>
            n \<notin> set (concat ls) \<and> get_node_layer ?g n = Inr (- 1) \<and> layer_key ls n = 999"
  proof (intro allI impI)
    fix n assume "(n, n) \<in> (dep_rel ?g)\<^sup>+"
    from cycle_not_layered[OF lay this] have nin: "n \<notin> set (concat ls)" .
    with get_node_layer_eq[OF gl, of n] find_layer_notin[OF nin, of 0] layer_key_notin[OF nin]
    show "n \<notin> set (concat ls) \<and> get_node_layer ?g n = Inr (- 1) \<and> layer_key ls n = 999"
      by simp
  qed
  show ?thesis
    by (rule exI[of _ ls]) (intro conjI gl cyc layers_cover_iff_acyclic[OF w lay sub fp])
qed

theorem C10_layers_of_cyclic_graph_witness:
  "(''dbo.X'', ''dbo.X'') \<in> (dep_rel (new_graph ex_cycle))\<^sup>+
   \<and> get_layers (new_graph ex_cycle) = Inr []
   \<and> get_node_layer (new_graph ex_cycle) ''dbo.X'' = Inr (- 1)
   \<and> layer_key [] ''dbo.X'' = 999
   \<and> \<not> acyclic (dep_rel (new_graph ex_cycle))"
proof -
  let ?g = "new_graph ex_cycle"
  have "''dbo.Y'' \<in> depends_on ?g ''dbo.X''" by code_simp
  then have xy: "(''dbo.X'', ''dbo.Y'') \<in> dep_rel ?g" by (simp add: dep_rel_def)
  have "''dbo.Z'' \<in> depends_on ?g ''dbo.Y''" by code_simp
  then have yz: "(''dbo.Y'', ''dbo.Z'') \<in> dep_rel ?g" by (simp add: dep_rel_def)
  have "''dbo.X'' \<in> depends_on ?g ''dbo.Z''" by code_simp
  then have zx: "(''dbo.Z'', ''dbo.X'') \<in> dep_rel ?g" by (simp add: dep_rel_def)
  from xy yz zx have c: "(''dbo.X'', ''dbo.X'') \<in> (dep_rel ?g)\<^sup>+"
    by (meson trancl.r_into_trancl trancl_into_trancl)
  have gl: "get_layers ?g = Inr []" by code_simp
  from C10_layers_of_cyclic_graph[of ex_cycle] gl
  have all: "\<forall>n. (n, n) \<in> (dep_rel ?g)\<^sup>+ \<longrightarrow>
            n \<notin> set (concat []) \<and> get_node_layer ?g n = Inr (- 1) \<and> layer_key [] n = 999"
    and iff: "set (concat ([] :: string list list)) = nodes ?g \<longleftrightarrow> acyclic (dep_rel ?g)" by auto
  from all c have "get_node_layer ?g ''dbo.X'' = Inr (- 1) \<and> layer_key [] ''dbo.X'' = 999" by blast
  moreover have "nodes ?g \<noteq> {}" by code_simp
  with iff have "\<not> acyclic (dep_rel ?g)" by auto
  ultimately show ?thesis using c gl by blast
qed

section \<open>Impact scores (C2)\<close>

text \<open>
  C2, as stated, fails: the traversal stops at \<open>max_depth\<close>. In a chain of twelve tables
  with the default bound of ten, the failed first table has eleven transitive dependents
  and gets the score ten.
\<close>

theorem C2_score_misses_deep_descendants:
  "is_failed (ex_chain ! 0)
   \<and> (case new_analyzer ex_chain 10 True of
         Inl e \<Rightarrow> None | Inr a \<Rightarrow> Some (ao_impact_score (da_objects a ! 0))) = Some 10
   \<and> 10 < card (descendants (build_graph ex_chain) (ao_key (ex_chain ! 0)))"
proof -
  have f: "is_failed (ex_chain ! 0)" by code_simp
  have sc: "(case new_analyzer ex_chain 10 True of
         Inl e \<Rightarrow> None | Inr a \<Rightarrow> Some (ao_impact_score (da_objects a ! 0))) = Some 10"
    by code_simp
  have k: "ao_key (ex_chain ! 0) = ''dbo.o00''" by code_simp
  have E: "di_edge_set (build_graph ex_chain) = set [(''dbo.o01'', ''dbo.o00''), (''dbo.o02'', ''dbo.o01''), (''dbo.o03'', ''dbo.o02''), (''dbo.o04'', ''dbo.o03''), (''dbo.o05'', ''dbo.o04''), (''dbo.o06'', ''dbo.o05''), (''dbo.o07'', ''dbo.o06''), (''dbo.o08'', ''dbo.o07''), (''dbo.o09'', ''dbo.o08''), (''dbo.o10'', ''dbo.o09''), (''dbo.o11'', ''dbo.o10'')]"
    by code_simp
  have e1: "(''dbo.o01'', ''dbo.o00'') \<in> di_edge_set (build_graph ex_chain)" unfolding E by simp
  have e2: "(''dbo.o02'', ''dbo.o01'') \<in> di_edge_set (build_graph ex_chain)" unfolding E by simp
  have e3: "(''dbo.o03'', ''dbo.o02'') \<in> di_edge_set (build_graph ex_chain)" unfolding E by simp
  have e4: "(''dbo.o04'', ''dbo.o03'') \<in> di_edge_set (build_graph ex_chain)" unfolding E by simp
  have e5: "(''dbo.o05'', ''dbo.o04'') \<in> di_edge_set (build_graph ex_chain)" unfolding E by simp
  have e6: "(''dbo.o06'', ''dbo.o05'') \<in> di_edge_set (build_graph ex_chain)" unfolding E by simp
  have e7: "(''dbo.o07'', ''dbo.o06'') \<in> di_edge_set (build_graph ex_chain)" unfolding E by simp
  have e8: "(''dbo.o08'', ''dbo.o07'') \<in> di_edge_set (build_graph ex_chain)" unfolding E by simp
  have e9: "(''dbo.o09'', ''dbo.o08'') \<in> di_edge_set (build_graph ex_chain)" unfolding E by simp
  have e10: "(''dbo.o10'', ''dbo.o09'') \<in> di_edge_set (build_graph ex_chain)" unfolding E by simp
  have e11: "(''dbo.o11'', ''dbo.o10'') \<in> di_edge_set (build_graph ex_chain)" unfolding E by simp
  have t1: "(''dbo.o01'', ''dbo.o00'') \<in> (di_edge_set (build_graph ex_chain))\<^sup>+" using e1 by (rule r_into_trancl)
  have t2: "(''dbo.o02'', ''dbo.o00'') \<in> (di_edge_set (build_graph ex_chain))\<^sup>+" using e2 t1 by (rule trancl_into_trancl2)
  have t3: "(''dbo.o03'', ''dbo.o00'') \<in> (di_edge_set (build_graph ex_chain))\<^sup>+" using e3 t2 by (rule trancl_into_trancl2)
  have t4: "(''dbo.o04'', ''dbo.o00'') \<in> (di_edge_set (build_graph ex_chain))\<^sup>+" using e4 t3 by (rule trancl_into_trancl2)
  have t5: "(''dbo.o05'', ''dbo.o00'') \<in> (di_edge_set (build_graph ex_chain))\<^sup>+" using e5 t4 by (rule trancl_into_trancl2)
  have t6: "(''dbo.o06'', ''dbo.o00'') \<in> (di_edge_set (build_graph ex_chain))\<^sup>+" using e6 t5 by (rule trancl_into_trancl2)
  have t7: "(''dbo.o07'', ''dbo.o00'') \<in> (di_edge_set (build_graph ex_chain))\<^sup>+" using e7 t6 by (rule trancl_into_trancl2)
  have t8: "(''dbo.o08'', ''dbo.o00'') \<in> (di_edge_set (build_graph ex_chain))\<^sup>+" using e8 t7 by (rule trancl_into_trancl2)
  have t9: "(''dbo.o09'', ''dbo.o00'') \<in> (di_edge_set (build_graph ex_chain))\<^sup>+" using e9 t8 by (rule trancl_into_trancl2)
  have t10: "(''dbo.o10'', ''dbo.o00'') \<in> (di_edge_set (build_graph ex_chain))\<^sup>+" using e10 t9 by (rule trancl_into_trancl2)
  have t11: "(''dbo.o11'', ''dbo.o00'') \<in> (di_edge_set (build_graph ex_chain))\<^sup>+" using e11 t10 by (rule trancl_into_trancl2)
  have "set [''dbo.o01'', ''dbo.o02'', ''dbo.o03'', ''dbo.o04'', ''dbo.o05'', ''dbo.o06'', ''dbo.o07'', ''dbo.o08'', ''dbo.o09'', ''dbo.o10'', ''dbo.o11'']
          \<subseteq> descendants (build_graph ex_chain) ''dbo.o00''"
    unfolding descendants_def using t1 t2 t3 t4 t5 t6 t7 t8 t9 t10 t11 by simp
  from card_mono[OF finite_descendants this]
  have "card (set [''dbo.o01'', ''dbo.o02'', ''dbo.o03'', ''dbo.o04'', ''dbo.o05'', ''dbo.o06'', ''dbo.o07'', ''dbo.o08'', ''dbo.o09'', ''dbo.o10'', ''dbo.o11''])
          \<le> card (descendants (build_graph ex_chain) ''dbo.o00'')" .
  moreover have "distinct [''dbo.o01'', ''dbo.o02'', ''dbo.o03'', ''dbo.o04'', ''dbo.o05'', ''dbo.o06'', ''dbo.o07'', ''dbo.o08'', ''dbo.o09'', ''dbo.o10'', ''dbo.o11'']" by simp
  then have "card (set [''dbo.o01'', ''dbo.o02'', ''dbo.o03'', ''dbo.o04'', ''dbo.o05'', ''dbo.o06'', ''dbo.o07'', ''dbo.o08'', ''dbo.o09'', ''dbo.o10'', ''dbo.o11'']) = 11"
    by (simp only: distinct_card) simp
  ultimately have "10 < card (descendants (build_graph ex_chain) ''dbo.o00'')" by linarith
  with f sc k show ?thesis by simp
qed

text \<open>
  C2, amended. The analyzer is always built; the score written onto a failed object is the
  number of nodes other than the object's own from which it is reached along at most
  \<open>max_depth\<close> dependency edges; an object whose key is not the key of a failed object
  gets the score 0.
\<close>

theorem C2_impact_score_bounded:
  "\<exists>a. new_analyzer objects max_depth True = Inr a
     \<and> length (da_objects a) = length objects
     \<and> (\<forall>i<length objects.
           (is_failed (objects ! i) \<longrightarrow>
              ao_impact_score (da_objects a ! i)
                = int (card (reach (build_graph objects) (ao_key (objects ! i)) (nat max_depth)
                              - {ao_key (objects ! i)})))
         \<and> ((\<forall>ob \<in> set objects. is_failed ob \<longrightarrow> ao_key ob \<noteq> ao_key (objects ! i)) \<longrightarrow>
              ao_impact_score (da_objects a ! i) = 0))"
proof -
  let ?g = "build_graph objects"
  have w: "di_wf (ao_key ` set objects) ?g" by (rule di_wf_build_graph)
  from calculate_impact_scores_loop_correct[OF w subset_refl, of max_depth Map.empty]
  obtain scores where
    l: "calculate_impact_scores ?g max_depth objects = Inr scores"
    and c: "\<forall>k. scores k = (if \<exists>ob \<in> set objects. is_failed ob \<and> ao_key ob = k
                             then Some (bounded_score ?g max_depth k) else None)"
    unfolding calculate_impact_scores_def by auto
  define a where "a = \<lparr> da_objects =
                       map (\<lambda>obj. obj\<lparr> ao_impact_score :=
                                         (case scores (ao_key obj) of None \<Rightarrow> 0 | Some v \<Rightarrow> v) \<rparr>) objects,
                     da_max_depth = max_depth, da_enable_impact_scoring = True,
                     da_graph = ?g, da_impact_scores = scores \<rparr>"
  have na: "new_analyzer objects max_depth True = Inr a"
    unfolding new_analyzer_def Let_def a_def using l by simp
  have len: "length (da_objects a) = length objects" unfolding a_def by simp
  have sc: "ao_impact_score (da_objects a ! i)
              = (case scores (ao_key (objects ! i)) of None \<Rightarrow> 0 | Some v \<Rightarrow> v)"
    if "i < length objects" for i
    unfolding a_def using that by simp
  have "\<forall>i<length objects.
           (is_failed (objects ! i) \<longrightarrow>
              ao_impact_score (da_objects a ! i)
                = int (card (reach ?g (ao_key (objects ! i)) (nat max_depth) - {ao_key (objects ! i)})))
         \<and> ((\<forall>ob \<in> set objects. is_failed ob \<longrightarrow> ao_key ob \<noteq> ao_key (objects ! i)) \<longrightarrow>
              ao_impact_score (da_objects a ! i) = 0)"
  proof (intro allI impI conjI)
    fix i assume i: "i < length objects" and f: "is_failed (objects ! i)"
    from i have "objects ! i \<in> set objects" by simp
    with f have "\<exists>ob \<in> set objects. is_failed ob \<and> ao_key ob = ao_key (objects ! i)" by blast
    with c have "scores (ao_key (objects ! i)) = Some (bounded_score ?g max_depth (ao_key (objects ! i)))"
      by presburger
    with sc[OF i] show "ao_impact_score (da_objects a ! i)
                = int (card (reach ?g (ao_key (objects ! i)) (nat max_depth) - {ao_key (objects ! i)}))"
      unfolding bounded_score_def by simp
  next
    fix i assume i: "i < length objects"
      and nf: "\<forall>ob \<in> set objects. is_failed ob \<longrightarrow> ao_key ob \<noteq> ao_key (objects ! i)"
    then have "\<not> (\<exists>ob \<in> set objects. is_failed ob \<and> ao_key ob = ao_key (objects ! i))" by blast
    with c have "scores (ao_key (objects ! i)) = None" by presburger
    with sc[OF i] show "ao_impact_score (da_objects a ! i) = 0" by simp
  qed
  with na len show ?thesis by blast
qed

theorem C2_impact_score_bounded_witness:
  "is_failed (ex_small_chain ! 0)
   \<and> (\<exists>a. new_analyzer ex_small_chain 10 True = Inr a \<and> ao_impact_score (da_objects a ! 0) = 2)"
proof -
  have f: "is_failed (ex_small_chain ! 0)" by code_simp
  have l: "0 < length ex_small_chain" by code_simp
  have b: "int (card (reach (build_graph ex_small_chain) (ao_key (ex_small_chain ! 0)) (nat 10)
                        - {ao_key (ex_small_chain ! 0)})) = 2" by code_simp
  from C2_impact_score_bounded[of ex_small_chain 10] obtain a where
    na: "new_analyzer ex_small_chain 10 True = Inr a"
    and all: "\<forall>i<length ex_small_chain.
           (is_failed (ex_small_chain ! i) \<longrightarrow>
              ao_impact_score (da_objects a ! i)
                = int (card (reach (build_graph ex_small_chain) (ao_key (ex_small_chain ! i)) (nat 10)
                              - {ao_key (ex_small_chain ! i)})))
         \<and> ((\<forall>ob \<in> set ex_small_chain. is_failed ob \<longrightarrow> ao_key ob \<noteq> ao_key (ex_small_chain ! i)) \<longrightarrow>
              ao_impact_score (da_objects a ! i) = 0)" by blast
  from all l f have "ao_impact_score (da_objects a ! 0)
                = int (card (reach (build_graph ex_small_chain) (ao_key (ex_small_chain ! 0)) (nat 10)
                              - {ao_key (ex_small_chain ! 0)}))" by blast
  with b have "ao_impact_score (da_objects a ! 0) = 2" by simp
  with f na show ?thesis by blast
qed

end
